theory Spec2Isabelle
  imports Main "HOL-Library.Word" "HOL-Library.Multiset" "HOL-Library.Signed_Division"
begin

section \<open>Memory, sizes and type tables\<close>

text \<open>
  The library works on untyped caller memory through \<open>unsigned char *\<close>. A buffer is the
  list of its bytes; a \<open>NULL\<close> pointer is \<open>None\<close>. Offsets and counts are \<open>size_t\<close>
  values, modelled as natural numbers; where the C arithmetic can exceed the 64-bit range
  of \<open>size_t\<close> the wrap-around is written out with \<open>sz\<close>.
\<close>

type_synonym byte = "8 word"
type_synonym bytes = "byte list"

definition sz :: "nat \<Rightarrow> nat" where
  "sz n = n mod 2 ^ 64"

text \<open>\<open>n\<close> bytes of \<open>m\<close> starting at offset \<open>off\<close>.\<close>

definition read_at :: "bytes \<Rightarrow> nat \<Rightarrow> nat \<Rightarrow> bytes" where
  "read_at m off n = take n (drop off m)"

text \<open>\<open>m\<close> with the bytes \<open>d\<close> stored from offset \<open>off\<close> on.\<close>

definition write_at :: "bytes \<Rightarrow> nat \<Rightarrow> bytes \<Rightarrow> bytes" where
  "write_at m off d = take off m @ d @ drop (off + length d) m"

text \<open>
  \<open>memmove(m + doff, m + soff, n)\<close> inside one buffer: the source bytes are read before
  any byte is stored, so overlapping ranges are copied correctly.
\<close>

definition memmove :: "bytes \<Rightarrow> nat \<Rightarrow> nat \<Rightarrow> nat \<Rightarrow> bytes" where
  "memmove m doff soff n = write_at m doff (read_at m soff n)"

text \<open>\<open>memcpy(dst + doff, src + soff, n)\<close> between two distinct buffers.\<close>

definition memcpy :: "bytes \<Rightarrow> nat \<Rightarrow> bytes \<Rightarrow> nat \<Rightarrow> nat \<Rightarrow> bytes" where
  "memcpy dst doff src soff n = write_at dst doff (read_at src soff n)"

definition memset :: "bytes \<Rightarrow> byte \<Rightarrow> nat \<Rightarrow> bytes" where
  "memset m v n = write_at m 0 (replicate n v)"

text \<open>
  \<open>malloc\<close> is a parameter of the model: asked for \<open>n\<close> bytes it answers \<open>None\<close>
  (a \<open>NULL\<close> result) or a fresh block with arbitrary contents.
\<close>

type_synonym allocator = "nat \<Rightarrow> bytes option"

text \<open>The element with index \<open>i\<close> of a buffer whose elements are \<open>stride\<close> bytes wide.\<close>

definition elem_at :: "bytes \<Rightarrow> nat \<Rightarrow> nat \<Rightarrow> bytes" where
  "elem_at base stride i = read_at base (i * stride) stride"

text \<open>The first \<open>n\<close> elements of a buffer, in index order.\<close>

definition elems :: "bytes \<Rightarrow> nat \<Rightarrow> nat \<Rightarrow> bytes list" where
  "elems base stride n = map (elem_at base stride) [0..<n]"

text \<open>
  The type tables of \<open>filter.c\<close> and \<open>reduce.c\<close>, with the sizes of an LP64 platform
  (\<open>sizeof(char*) = sizeof(size_t) = 8\<close>, \<open>sizeof(bool) = 1\<close>).
\<close>

definition g_filter_types :: "(string \<times> nat) list" where
  "g_filter_types =
    [(''i8'', 1), (''i16'', 2), (''i32'', 4), (''i64'', 8),
     (''u8'', 1), (''u16'', 2), (''u32'', 4), (''u64'', 8),
     (''f32'', 4), (''f64'', 8),
     (''char'', 1), (''cstr'', 8),
     (''bool'', 1),
     (''hex'', 8), (''oct'', 8), (''bin'', 8), (''size'', 8),
     (''datetime'', 8), (''duration'', 8),
     (''any'', 1), (''null'', 0)]"

definition g_reduce_types :: "(string \<times> nat) list" where
  "g_reduce_types =
    [(''i8'', 1), (''i16'', 2), (''i32'', 4), (''i64'', 8),
     (''u8'', 1), (''u16'', 2), (''u32'', 4), (''u64'', 8),
     (''f32'', 4), (''f64'', 8),
     (''bool'', 1),
     (''size'', 8), (''datetime'', 8), (''duration'', 8),
     (''any'', 1), (''null'', 0)]"

text \<open>The linear scan of both \<open>type_sizeof\<close> functions: the first matching entry wins.\<close>

fun type_scan :: "(string \<times> nat) list \<Rightarrow> string \<Rightarrow> nat" where
  "type_scan [] type_id = 0"
| "type_scan ((ident, width) # rest) type_id =
     (if ident = type_id then width else type_scan rest type_id)"

definition fossil_algorithm_filter_type_sizeof :: "string option \<Rightarrow> nat" where
  "fossil_algorithm_filter_type_sizeof type_id =
     (case type_id of None \<Rightarrow> 0 | Some t \<Rightarrow> type_scan g_filter_types t)"

definition fossil_algorithm_filter_type_supported :: "string option \<Rightarrow> bool" where
  "fossil_algorithm_filter_type_supported type_id \<longleftrightarrow>
     fossil_algorithm_filter_type_sizeof type_id \<noteq> 0"

definition fossil_algorithm_reduce_type_sizeof :: "string option \<Rightarrow> nat" where
  "fossil_algorithm_reduce_type_sizeof type_id =
     (case type_id of None \<Rightarrow> 0 | Some t \<Rightarrow> type_scan g_reduce_types t)"

definition fossil_algorithm_reduce_type_supported :: "string option \<Rightarrow> bool" where
  "fossil_algorithm_reduce_type_supported type_id \<longleftrightarrow>
     fossil_algorithm_reduce_type_sizeof type_id \<noteq> 0"

section \<open>Filter algorithms\<close>

text \<open>
  A predicate receives a pointer to one element and the user context; the model passes
  it the \<open>stride\<close> bytes of the element, the context being part of the function.
  Every algorithm returns the buffer as it leaves it together with its result.
\<close>

type_synonym predicate = "bytes \<Rightarrow> bool"

function inplace_loop ::
  "bytes \<Rightarrow> nat \<Rightarrow> nat \<Rightarrow> predicate \<Rightarrow> nat \<Rightarrow> nat \<Rightarrow> bytes \<times> nat" where
  "inplace_loop base cnt stride pred read write =
     (if read < cnt then
        (if pred (elem_at base stride read) then
           inplace_loop
             (if write \<noteq> read then memmove base (write * stride) (read * stride) stride
              else base)
             cnt stride pred (read + 1) (write + 1)
         else inplace_loop base cnt stride pred (read + 1) write)
      else (base, write))"
  by pat_completeness auto
termination
  by (relation "measure (\<lambda>(base, cnt, stride, pred, read, write). cnt - read)") auto

definition filter_inplace :: "bytes \<Rightarrow> nat \<Rightarrow> nat \<Rightarrow> predicate \<Rightarrow> bytes \<times> nat" where
  "filter_inplace base cnt stride pred = inplace_loop base cnt stride pred 0 0"

text \<open>
  The scan of \<open>filter_stable\<close> and of one lane of \<open>filter_lane_stable\<close> (the two loop
  bodies are the same): kept elements of \<open>base\<close> are appended to the scratch block.
\<close>

function stable_scan ::
  "bytes \<Rightarrow> bytes \<Rightarrow> nat \<Rightarrow> predicate \<Rightarrow> nat \<Rightarrow> nat \<Rightarrow> nat \<Rightarrow> bytes \<times> nat" where
  "stable_scan base tmp stride pred i stop kept =
     (if i < stop then
        (if pred (elem_at base stride i) then
           stable_scan base (memcpy tmp (kept * stride) base (i * stride) stride)
             stride pred (i + 1) stop (kept + 1)
         else stable_scan base tmp stride pred (i + 1) stop kept)
      else (tmp, kept))"
  by pat_completeness auto
termination
  by (relation "measure (\<lambda>(base, tmp, stride, pred, i, stop, kept). stop - i)") auto

definition filter_stable ::
  "allocator \<Rightarrow> bytes \<Rightarrow> nat \<Rightarrow> nat \<Rightarrow> predicate \<Rightarrow> bytes \<times> nat" where
  "filter_stable malloc base cnt stride pred =
     (case malloc (sz (cnt * stride)) of
        None \<Rightarrow> (base, 0)
      | Some tmp \<Rightarrow>
          (case stable_scan base tmp stride pred 0 cnt 0 of
             (tmp', kept) \<Rightarrow> (memcpy base 0 tmp' 0 (kept * stride), kept)))"

function count_only_loop :: "bytes \<Rightarrow> nat \<Rightarrow> nat \<Rightarrow> predicate \<Rightarrow> nat \<Rightarrow> nat \<Rightarrow> nat" where
  "count_only_loop base cnt stride pred i hits =
     (if i < cnt then
        count_only_loop base cnt stride pred (i + 1)
          (if pred (elem_at base stride i) then hits + 1 else hits)
      else hits)"
  by pat_completeness auto
termination
  by (relation "measure (\<lambda>(base, cnt, stride, pred, i, hits). cnt - i)") auto

definition filter_count_only :: "bytes \<Rightarrow> nat \<Rightarrow> nat \<Rightarrow> predicate \<Rightarrow> nat" where
  "filter_count_only base cnt stride pred = count_only_loop base cnt stride pred 0 0"

function first_loop :: "bytes \<Rightarrow> nat \<Rightarrow> nat \<Rightarrow> predicate \<Rightarrow> nat \<Rightarrow> nat" where
  "first_loop base cnt stride pred i =
     (if i < cnt then
        (if pred (elem_at base stride i) then 1
         else first_loop base cnt stride pred (i + 1))
      else 0)"
  by pat_completeness auto
termination
  by (relation "measure (\<lambda>(base, cnt, stride, pred, i). cnt - i)") auto

definition filter_first :: "bytes \<Rightarrow> nat \<Rightarrow> nat \<Rightarrow> predicate \<Rightarrow> nat" where
  "filter_first base cnt stride pred = first_loop base cnt stride pred 0"

text \<open>\<open>for (size_t i = cnt; i-- > 0; )\<close>: the body runs with \<open>i - 1\<close>.\<close>

fun last_loop :: "bytes \<Rightarrow> nat \<Rightarrow> predicate \<Rightarrow> nat \<Rightarrow> nat" where
  "last_loop base stride pred 0 = 0"
| "last_loop base stride pred (Suc i) =
     (if pred (elem_at base stride i) then 1 else last_loop base stride pred i)"

definition filter_last :: "bytes \<Rightarrow> nat \<Rightarrow> nat \<Rightarrow> predicate \<Rightarrow> nat" where
  "filter_last base cnt stride pred = last_loop base stride pred cnt"

function partition_loop ::
  "bytes \<Rightarrow> nat \<Rightarrow> predicate \<Rightarrow> nat \<Rightarrow> nat \<Rightarrow> bytes \<times> nat" where
  "partition_loop base stride pred left right =
     (if left < right then
        (if pred (elem_at base stride left) then
           partition_loop base stride pred (left + 1) right
         else
           partition_loop (memmove base (left * stride) ((right - 1) * stride) stride)
             stride pred left (right - 1))
      else (base, left))"
  by pat_completeness auto
termination
  by (relation "measure (\<lambda>(base, stride, pred, left, right). right - left)") auto

definition filter_partition :: "bytes \<Rightarrow> nat \<Rightarrow> nat \<Rightarrow> predicate \<Rightarrow> bytes \<times> nat" where
  "filter_partition base cnt stride pred = partition_loop base stride pred 0 cnt"

text \<open>
  An integer division by zero is undefined behaviour (a trap on the usual platforms), and so
  is a call through a \<open>NULL\<close> function pointer; the model returns them as faults.
\<close>

datatype fault = DivisionByZero | NullCall

text \<open>\<open>x - 1\<close> in \<open>size_t\<close> arithmetic: \<open>0 - 1\<close> is \<open>SIZE_MAX\<close>.\<close>

definition sz_dec :: "nat \<Rightarrow> nat" where
  "sz_dec x = sz (x + (2 ^ 64 - 1))"

text \<open>\<open>(count + lanes - 1) / lanes\<close> for \<open>lanes \<noteq> 0\<close>.\<close>

definition lane_size_of :: "nat \<Rightarrow> nat \<Rightarrow> nat" where
  "lane_size_of cnt lanes = sz_dec (sz (cnt + lanes)) div lanes"

text \<open>
  The loop over the lanes, as \<open>filter_lane_compact\<close> and \<open>filter_lane_stable\<close> both
  write it: \<open>body start stop\<close> is the inner loop over the indices \<open>start \<le> i < stop\<close>,
  acting on the state the function carries.
\<close>

function lane_loop ::
  "(nat \<Rightarrow> nat \<Rightarrow> 's \<Rightarrow> 's) \<Rightarrow> nat \<Rightarrow> nat \<Rightarrow> nat \<Rightarrow> nat \<Rightarrow> 's \<Rightarrow> 's" where
  "lane_loop body cnt lanes lane_size lane st =
     (if lane < lanes then
        (if sz (lane * lane_size) \<ge> cnt then st
         else lane_loop body cnt lanes lane_size (lane + 1)
                (body (sz (lane * lane_size))
                   (if sz (sz (lane * lane_size) + lane_size) > cnt then cnt
                    else sz (sz (lane * lane_size) + lane_size))
                   st))
      else st)"
  by pat_completeness auto
termination
  by (relation "measure (\<lambda>(body, cnt, lanes, lane_size, lane, st). lanes - lane)") auto

text \<open>The ranges \<open>(start, stop)\<close> the lane loop hands to its body, in the order it visits them.\<close>

definition lane_ranges :: "nat \<Rightarrow> nat \<Rightarrow> nat \<Rightarrow> (nat \<times> nat) list" where
  "lane_ranges cnt lanes lane_size =
     lane_loop (\<lambda>start stop rs. rs @ [(start, stop)]) cnt lanes lane_size 0 []"

text \<open>\<open>if (lanes == 0) lanes = 1; if (lanes > count) lanes = count;\<close>\<close>

definition clamp_lanes :: "nat \<Rightarrow> nat \<Rightarrow> nat" where
  "clamp_lanes cnt lanes =
     (let lanes1 = (if lanes = 0 then 1 else lanes) in
      if lanes1 > cnt then cnt else lanes1)"

text \<open>The inner loop of \<open>filter_lane_compact\<close>: every kept element is moved, also onto itself.\<close>

function compact_scan ::
  "bytes \<Rightarrow> nat \<Rightarrow> predicate \<Rightarrow> nat \<Rightarrow> nat \<Rightarrow> nat \<Rightarrow> bytes \<times> nat" where
  "compact_scan base stride pred i stop write =
     (if i < stop then
        (if pred (elem_at base stride i) then
           compact_scan (memmove base (write * stride) (i * stride) stride)
             stride pred (i + 1) stop (write + 1)
         else compact_scan base stride pred (i + 1) stop write)
      else (base, write))"
  by pat_completeness auto
termination
  by (relation "measure (\<lambda>(base, stride, pred, i, stop, write). stop - i)") auto

definition filter_lane_compact ::
  "bytes \<Rightarrow> nat \<Rightarrow> nat \<Rightarrow> nat \<Rightarrow> predicate \<Rightarrow> fault + bytes \<times> nat" where
  "filter_lane_compact base cnt stride lanes pred =
     (let lanes' = clamp_lanes cnt lanes in
      if lanes' = 0 then Inl DivisionByZero
      else Inr (lane_loop
                  (\<lambda>start stop (b, write). compact_scan b stride pred start stop write)
                  cnt lanes' (lane_size_of cnt lanes') 0 (base, 0)))"

text \<open>
  In \<open>filter_lane_stable\<close> the scratch block is allocated, and a failed allocation
  returned from, before the lane size is computed.
\<close>

definition filter_lane_stable ::
  "allocator \<Rightarrow> bytes \<Rightarrow> nat \<Rightarrow> nat \<Rightarrow> nat \<Rightarrow> predicate \<Rightarrow> fault + bytes \<times> nat" where
  "filter_lane_stable malloc base cnt stride lanes pred =
     (let lanes' = clamp_lanes cnt lanes in
      case malloc (sz (cnt * stride)) of
        None \<Rightarrow> Inr (base, 0)
      | Some tmp \<Rightarrow>
          if lanes' = 0 then Inl DivisionByZero
          else
            (case lane_loop
                    (\<lambda>start stop (t, out). stable_scan base t stride pred start stop out)
                    cnt lanes' (lane_size_of cnt lanes') 0 (tmp, 0) of
               (tmp', out) \<Rightarrow> Inr (memcpy base 0 tmp' 0 (out * stride), out)))"

section \<open>The filter entry point\<close>

text \<open>
  The dispatch of \<open>fossil_algorithm_filter_exec\<close>: \<open>None\<close> when no algorithm matches.
  The algorithms that only read return the buffer they were given.
\<close>

definition filter_dispatch ::
  "allocator \<Rightarrow> bytes \<Rightarrow> nat \<Rightarrow> nat \<Rightarrow> nat \<Rightarrow> predicate \<Rightarrow> string \<Rightarrow>
   (fault + bytes \<times> nat) option" where
  "filter_dispatch malloc bytes cnt stride lanes pred algorithm_id =
     (if algorithm_id = ''inplace'' \<or> algorithm_id = ''compact'' then
        Some (Inr (filter_inplace bytes cnt stride pred))
      else if algorithm_id = ''stable'' then
        Some (Inr (filter_stable malloc bytes cnt stride pred))
      else if algorithm_id = ''lane-compact'' then
        Some (filter_lane_compact bytes cnt stride lanes pred)
      else if algorithm_id = ''lane-stable'' then
        Some (filter_lane_stable malloc bytes cnt stride lanes pred)
      else if algorithm_id = ''count-only'' then
        Some (Inr (bytes, filter_count_only bytes cnt stride pred))
      else if algorithm_id = ''first'' then
        Some (Inr (bytes, filter_first bytes cnt stride pred))
      else if algorithm_id = ''last'' then
        Some (Inr (bytes, filter_last bytes cnt stride pred))
      else if algorithm_id = ''partition'' then
        Some (Inr (filter_partition bytes cnt stride pred))
      else None)"

text \<open>The resolution of \<open>"auto"\<close> and the \<open>"dry-run"\<close> override, in the order of the source.\<close>

definition resolve_algorithm :: "string \<Rightarrow> string \<Rightarrow> nat \<Rightarrow> string" where
  "resolve_algorithm algorithm_id mode_id lanes =
     (let a = (if algorithm_id = ''auto'' then
                 (if mode_id = ''lane'' \<or> lanes > 1 then ''lane-compact'' else ''inplace'')
               else algorithm_id)
      in if mode_id = ''dry-run'' then ''count-only'' else a)"

text \<open>
  The call returns its status, the buffer and the slot \<open>out_count\<close> points to
  (\<open>None\<close> for a \<open>NULL\<close> pointer, which is never written through).
\<close>

definition fossil_algorithm_filter_exec ::
  "allocator \<Rightarrow> bytes option \<Rightarrow> nat \<Rightarrow> string option \<Rightarrow> string option \<Rightarrow> string option \<Rightarrow>
   nat \<Rightarrow> predicate option \<Rightarrow> nat option \<Rightarrow> fault + int \<times> bytes option \<times> nat option" where
  "fossil_algorithm_filter_exec malloc base cnt type_id algorithm_id mode_id lanes
     predicate out_count =
     (case (base, predicate) of
        (Some bytes, Some pred) \<Rightarrow>
          (let stride = fossil_algorithm_filter_type_sizeof type_id in
           if stride = 0 then Inr (- 2, base, out_count)
           else
             (let algorithm_id' = (case algorithm_id of None \<Rightarrow> ''auto'' | Some a \<Rightarrow> a);
                  mode_id' = (case mode_id of None \<Rightarrow> ''auto'' | Some m \<Rightarrow> m)
              in case filter_dispatch malloc bytes cnt stride lanes pred
                        (resolve_algorithm algorithm_id' mode_id' lanes) of
                   None \<Rightarrow> Inr (- 3, base, out_count)
                 | Some (Inl f) \<Rightarrow> Inl f
                 | Some (Inr (bytes', result)) \<Rightarrow>
                     Inr (0, Some bytes',
                          (case out_count of None \<Rightarrow> None | Some old \<Rightarrow> Some result))))
      | _ \<Rightarrow> Inr (- 1, base, out_count))"

section \<open>Integers in memory\<close>

text \<open>
  Fixed-width integers are stored little-endian. \<open>load_u n\<close> and \<open>load_s n\<close> read the
  first \<open>n\<close> bytes as an unsigned and as a two's complement value; the stores keep
  the value modulo \<open>2 ^ (8 * n)\<close>.
\<close>

definition le_nat :: "bytes \<Rightarrow> nat" where
  "le_nat bs = foldr (\<lambda>b v. unat b + 256 * v) bs 0"

definition le_bytes :: "nat \<Rightarrow> nat \<Rightarrow> bytes" where
  "le_bytes n v = map (\<lambda>k. word_of_nat (v div 256 ^ k mod 256)) [0..<n]"

definition load_u :: "nat \<Rightarrow> bytes \<Rightarrow> nat" where
  "load_u n m = le_nat (read_at m 0 n)"

definition load_s :: "nat \<Rightarrow> bytes \<Rightarrow> int" where
  "load_s n m =
     (let v = load_u n m in
      if v < 2 ^ (8 * n - 1) then int v else int v - 2 ^ (8 * n))"

definition store_u :: "nat \<Rightarrow> bytes \<Rightarrow> nat \<Rightarrow> bytes" where
  "store_u n m v = write_at m 0 (le_bytes n v)"

definition store_s :: "nat \<Rightarrow> bytes \<Rightarrow> int \<Rightarrow> bytes" where
  "store_s n m v = store_u n m (nat (v mod 2 ^ (8 * n)))"

text \<open>
  The predicate of the filter tests: \<open>(*(const int *)element) % 2 == 0\<close>, where \<open>%\<close>
  truncates towards zero.
\<close>

definition keep_even :: predicate where
  "keep_even element \<longleftrightarrow> load_s 4 element smod 2 = 0"

section \<open>Reduce\<close>

text \<open>
  Floating-point arithmetic is not modelled: the reducers take the operations on the
  \<open>float\<close> and \<open>double\<close> representations, and the byte images of \<open>FLT_MAX\<close>,
  \<open>-FLT_MAX\<close>, \<open>DBL_MAX\<close> and \<open>-DBL_MAX\<close>, as parameters.
\<close>

record float_ops =
  f32_add :: "bytes \<Rightarrow> bytes \<Rightarrow> bytes"
  f32_less :: "bytes \<Rightarrow> bytes \<Rightarrow> bool"
  f32_max :: bytes
  f32_lowest :: bytes
  f64_add :: "bytes \<Rightarrow> bytes \<Rightarrow> bytes"
  f64_less :: "bytes \<Rightarrow> bytes \<Rightarrow> bool"
  f64_max :: bytes
  f64_lowest :: bytes

text \<open>A custom reducer maps the accumulator and one element to the new accumulator.\<close>

type_synonym reducer = "bytes \<Rightarrow> bytes \<Rightarrow> bytes"

text \<open>
  \<open>+=\<close> on the fixed-width integer types: the sum is stored modulo \<open>2 ^ (8 * n)\<close>.
\<close>

definition reduce_sum :: "float_ops \<Rightarrow> bytes \<Rightarrow> bytes \<Rightarrow> string \<Rightarrow> bytes" where
  "reduce_sum fo accum elem type_id =
     (if type_id = ''i8'' then store_s 1 accum (load_s 1 accum + load_s 1 elem)
      else if type_id = ''i16'' then store_s 2 accum (load_s 2 accum + load_s 2 elem)
      else if type_id = ''i32'' then store_s 4 accum (load_s 4 accum + load_s 4 elem)
      else if type_id = ''i64'' then store_s 8 accum (load_s 8 accum + load_s 8 elem)
      else if type_id = ''u8'' then store_u 1 accum (load_u 1 accum + load_u 1 elem)
      else if type_id = ''u16'' then store_u 2 accum (load_u 2 accum + load_u 2 elem)
      else if type_id = ''u32'' then store_u 4 accum (load_u 4 accum + load_u 4 elem)
      else if type_id = ''u64'' then store_u 8 accum (load_u 8 accum + load_u 8 elem)
      else if type_id = ''f32'' then
        write_at accum 0 (f32_add fo (read_at accum 0 4) (read_at elem 0 4))
      else if type_id = ''f64'' then
        write_at accum 0 (f64_add fo (read_at accum 0 8) (read_at elem 0 8))
      else accum)"

definition reduce_min :: "float_ops \<Rightarrow> bytes \<Rightarrow> bytes \<Rightarrow> string \<Rightarrow> bytes" where
  "reduce_min fo accum elem type_id =
     (if type_id = ''i8'' then
        (let v = load_s 1 elem in if v < load_s 1 accum then store_s 1 accum v else accum)
      else if type_id = ''i16'' then
        (let v = load_s 2 elem in if v < load_s 2 accum then store_s 2 accum v else accum)
      else if type_id = ''i32'' then
        (let v = load_s 4 elem in if v < load_s 4 accum then store_s 4 accum v else accum)
      else if type_id = ''i64'' then
        (let v = load_s 8 elem in if v < load_s 8 accum then store_s 8 accum v else accum)
      else if type_id = ''f32'' then
        (let v = read_at elem 0 4 in
         if f32_less fo v (read_at accum 0 4) then write_at accum 0 v else accum)
      else if type_id = ''f64'' then
        (let v = read_at elem 0 8 in
         if f64_less fo v (read_at accum 0 8) then write_at accum 0 v else accum)
      else accum)"

definition reduce_max :: "float_ops \<Rightarrow> bytes \<Rightarrow> bytes \<Rightarrow> string \<Rightarrow> bytes" where
  "reduce_max fo accum elem type_id =
     (if type_id = ''i8'' then
        (let v = load_s 1 elem in if v > load_s 1 accum then store_s 1 accum v else accum)
      else if type_id = ''i16'' then
        (let v = load_s 2 elem in if v > load_s 2 accum then store_s 2 accum v else accum)
      else if type_id = ''i32'' then
        (let v = load_s 4 elem in if v > load_s 4 accum then store_s 4 accum v else accum)
      else if type_id = ''i64'' then
        (let v = load_s 8 elem in if v > load_s 8 accum then store_s 8 accum v else accum)
      else if type_id = ''f32'' then
        (let v = read_at elem 0 4 in
         if f32_less fo (read_at accum 0 4) v then write_at accum 0 v else accum)
      else if type_id = ''f64'' then
        (let v = read_at elem 0 8 in
         if f64_less fo (read_at accum 0 8) v then write_at accum 0 v else accum)
      else accum)"

text \<open>A \<open>bool\<close> is one byte, true when it is not zero, and stored as 0 or 1.\<close>

definition load_bool :: "bytes \<Rightarrow> bool" where
  "load_bool m \<longleftrightarrow> load_u 1 m \<noteq> 0"

definition store_bool :: "bytes \<Rightarrow> bool \<Rightarrow> bytes" where
  "store_bool m b = store_u 1 m (if b then 1 else 0)"

definition reduce_any :: "bytes \<Rightarrow> bytes \<Rightarrow> bytes" where
  "reduce_any accum elem = store_bool accum (load_bool accum \<or> load_bool elem)"

definition reduce_all :: "bytes \<Rightarrow> bytes \<Rightarrow> bytes" where
  "reduce_all accum elem = store_bool accum (load_bool accum \<and> load_bool elem)"

text \<open>The initialisation of the accumulator; an operator it does not name leaves it as it is.\<close>

definition reduce_init :: "float_ops \<Rightarrow> string \<Rightarrow> string \<Rightarrow> nat \<Rightarrow> bytes \<Rightarrow> bytes" where
  "reduce_init fo op_id type_id stride out_result =
     (if op_id = ''sum'' \<or> op_id = ''count'' then memset out_result 0 stride
      else if op_id = ''min'' then
        (if type_id = ''i8'' then store_s 1 out_result 127
         else if type_id = ''i16'' then store_s 2 out_result 32767
         else if type_id = ''i32'' then store_s 4 out_result 2147483647
         else if type_id = ''i64'' then store_s 8 out_result 9223372036854775807
         else if type_id = ''f32'' then write_at out_result 0 (f32_max fo)
         else if type_id = ''f64'' then write_at out_result 0 (f64_max fo)
         else out_result)
      else if op_id = ''max'' then
        (if type_id = ''i8'' then store_s 1 out_result (- 128)
         else if type_id = ''i16'' then store_s 2 out_result (- 32768)
         else if type_id = ''i32'' then store_s 4 out_result (- 2147483648)
         else if type_id = ''i64'' then store_s 8 out_result (- 9223372036854775808)
         else if type_id = ''f32'' then write_at out_result 0 (f32_lowest fo)
         else if type_id = ''f64'' then write_at out_result 0 (f64_lowest fo)
         else out_result)
      else if op_id = ''any'' then store_bool out_result False
      else if op_id = ''all'' then store_bool out_result True
      else out_result)"

text \<open>
  How the loops of \<open>fossil_algorithm_reduce_exec\<close> end: they run to their end, or the
  function returns from inside them, or the program faults.
\<close>

datatype loop_exit = Finished bytes | Returned int bytes | Faulted fault

text \<open>The body of the inner loop: one element folded into the accumulator.\<close>

definition reduce_elem ::
  "float_ops \<Rightarrow> string \<Rightarrow> string \<Rightarrow> reducer option \<Rightarrow> bytes \<Rightarrow> bytes \<Rightarrow> loop_exit" where
  "reduce_elem fo op_id type_id reduce_fn out_result elem =
     (if op_id = ''sum'' then Finished (reduce_sum fo out_result elem type_id)
      else if op_id = ''min'' then Finished (reduce_min fo out_result elem type_id)
      else if op_id = ''max'' then Finished (reduce_max fo out_result elem type_id)
      else if op_id = ''count'' then Finished (store_u 8 out_result (load_u 8 out_result + 1))
      else if op_id = ''any'' then Finished (reduce_any out_result elem)
      else if op_id = ''all'' then Finished (reduce_all out_result elem)
      else if op_id = ''custom'' then
        (case reduce_fn of
           None \<Rightarrow> Faulted NullCall
         | Some f \<Rightarrow> Finished (f out_result elem))
      else Returned (- 3) out_result)"

function reduce_scan ::
  "float_ops \<Rightarrow> string \<Rightarrow> string \<Rightarrow> reducer option \<Rightarrow> bytes \<Rightarrow> nat \<Rightarrow>
   nat \<Rightarrow> nat \<Rightarrow> bytes \<Rightarrow> loop_exit" where
  "reduce_scan fo op_id type_id reduce_fn bytes stride i stop out_result =
     (if i < stop then
        (case reduce_elem fo op_id type_id reduce_fn out_result (elem_at bytes stride i) of
           Finished out' \<Rightarrow>
             reduce_scan fo op_id type_id reduce_fn bytes stride (i + 1) stop out'
         | exit \<Rightarrow> exit)
      else Finished out_result)"
  by pat_completeness auto
termination
  by (relation "measure (\<lambda>(fo, op_id, type_id, reduce_fn, bytes, stride, i, stop, out_result).
        stop - i)") auto

function reduce_lanes ::
  "float_ops \<Rightarrow> string \<Rightarrow> string \<Rightarrow> reducer option \<Rightarrow> bytes \<Rightarrow> nat \<Rightarrow>
   nat \<Rightarrow> nat \<Rightarrow> nat \<Rightarrow> nat \<Rightarrow> bytes \<Rightarrow> loop_exit" where
  "reduce_lanes fo op_id type_id reduce_fn bytes stride cnt lanes lane_size lane out_result =
     (if lane < lanes then
        (if sz (lane * lane_size) \<ge> cnt then Finished out_result
         else
           (case reduce_scan fo op_id type_id reduce_fn bytes stride
                   (sz (lane * lane_size))
                   (if sz (sz (lane * lane_size) + lane_size) > cnt then cnt
                    else sz (sz (lane * lane_size) + lane_size))
                   out_result of
              Finished out' \<Rightarrow>
                reduce_lanes fo op_id type_id reduce_fn bytes stride cnt lanes lane_size
                  (lane + 1) out'
            | exit \<Rightarrow> exit))
      else Finished out_result)"
  by pat_completeness auto
termination
  by (relation "measure (\<lambda>(fo, op_id, type_id, reduce_fn, bytes, stride, cnt, lanes,
        lane_size, lane, out_result). lanes - lane)") auto

text \<open>
  The call returns its status and the accumulator \<open>out_result\<close> points to. The mode
  identifier is not read.
\<close>

definition fossil_algorithm_reduce_exec ::
  "float_ops \<Rightarrow> bytes option \<Rightarrow> nat \<Rightarrow> string option \<Rightarrow> string option \<Rightarrow> string option \<Rightarrow>
   nat \<Rightarrow> bytes option \<Rightarrow> reducer option \<Rightarrow> fault + int \<times> bytes option" where
  "fossil_algorithm_reduce_exec fo base cnt type_id op_id mode_id lanes out_result reduce_fn =
     (case (base, out_result, type_id, op_id) of
        (Some bytes, Some out, Some ty, Some opr) \<Rightarrow>
          (let stride = fossil_algorithm_reduce_type_sizeof type_id in
           if stride = 0 then Inr (- 2, out_result)
           else if opr = ''custom'' \<and> reduce_fn = None then Inr (- 1, out_result)
           else
             (let out0 = reduce_init fo opr ty stride out;
                  lanes' = (if lanes = 0 then 1 else lanes);
                  lane_size = lane_size_of cnt lanes'
              in case reduce_lanes fo opr ty reduce_fn bytes stride cnt lanes' lane_size 0 out0 of
                   Finished out' \<Rightarrow> Inr (0, Some out')
                 | Returned status out' \<Rightarrow> Inr (status, Some out')
                 | Faulted f \<Rightarrow> Inl f))
      | _ \<Rightarrow> Inr (- 1, out_result))"

text \<open>
  The operator identifiers the per-element dispatch of \<open>fossil_algorithm_reduce_exec\<close>
  names.
\<close>

definition recognized_op :: "string \<Rightarrow> bool" where
  "recognized_op opr \<longleftrightarrow>
     opr \<in> set [''sum'', ''min'', ''max'', ''count'', ''any'', ''all'', ''custom'']"

text \<open>
  Floating-point operations for the examples whose data holds no floating-point value:
  none of them is called there.
\<close>

definition float_stub :: float_ops where
  "float_stub =
     \<lparr>f32_add = (\<lambda>a b. a), f32_less = (\<lambda>a b. False), f32_max = [], f32_lowest = [],
      f64_add = (\<lambda>a b. a), f64_less = (\<lambda>a b. False), f64_max = [], f64_lowest = []\<rparr>"

section \<open>Vocabulary of the properties\<close>

text \<open>
  A buffer the caller can pass: it holds \<open>cnt\<close> elements of \<open>stride\<close> bytes, the
  stride is one the type tables give (not zero), and the object is smaller than
  \<open>2 ^ 63\<close> bytes, the largest object a 64-bit platform allocates.
\<close>

definition valid_buffer :: "bytes \<Rightarrow> nat \<Rightarrow> nat \<Rightarrow> bool" where
  "valid_buffer base cnt stride \<longleftrightarrow>
     0 < stride \<and> cnt * stride \<le> length base \<and> length base < 2 ^ 63"

text \<open>A block \<open>malloc\<close> returns for \<open>n\<close> bytes has at least \<open>n\<close> bytes.\<close>

definition alloc_fits :: "allocator \<Rightarrow> nat \<Rightarrow> bool" where
  "alloc_fits malloc n \<longleftrightarrow> (case malloc n of None \<Rightarrow> True | Some tmp \<Rightarrow> n \<le> length tmp)"

text \<open>An allocator that always succeeds, with blocks of the size asked for.\<close>

definition zeroed :: allocator where
  "zeroed n = Some (replicate n 0)"

text \<open>The elements with indices \<open>i \<le> x < j\<close> that satisfy the predicate, in index order.\<close>

definition kept_in :: "bytes \<Rightarrow> nat \<Rightarrow> predicate \<Rightarrow> nat \<Rightarrow> nat \<Rightarrow> bytes list" where
  "kept_in b stride pred i j = filter pred (map (elem_at b stride) [i..<j])"

text \<open>
  The kept elements moved to the front, the bytes behind them as they were, and the
  number of kept elements.
\<close>

definition compacted :: "bytes \<Rightarrow> nat \<Rightarrow> nat \<Rightarrow> predicate \<Rightarrow> bytes \<times> nat" where
  "compacted b cnt stride pred =
     (concat (kept_in b stride pred 0 cnt)
        @ drop (length (kept_in b stride pred 0 cnt) * stride) b,
      length (kept_in b stride pred 0 cnt))"

text \<open>
  A result \<open>(base', k)\<close> is order-preserving: the first \<open>k\<close> elements of \<open>base'\<close> are
  the elements of \<open>base\<close> that satisfy the predicate, in their original order, and \<open>k\<close>
  is their number.
\<close>

definition keeps_in_order ::
  "bytes \<Rightarrow> nat \<Rightarrow> nat \<Rightarrow> predicate \<Rightarrow> bytes \<times> nat \<Rightarrow> bool" where
  "keeps_in_order base cnt stride pred r \<longleftrightarrow>
     (case r of (base', k) \<Rightarrow>
        elems base' stride k = filter pred (elems base stride cnt) \<and>
        k = length (filter pred (elems base stride cnt)))"

text \<open>
  A result \<open>(base', k)\<close> leaves the tail alone: the buffer keeps its length and every
  byte at an offset of \<open>k * stride\<close> or more keeps its value.
\<close>

definition tail_untouched :: "bytes \<Rightarrow> nat \<Rightarrow> bytes \<times> nat \<Rightarrow> bool" where
  "tail_untouched base stride r \<longleftrightarrow>
     (case r of (base', k) \<Rightarrow>
        length base' = length base \<and> drop (k * stride) base' = drop (k * stride) base)"

text \<open>
  A result \<open>(base', left)\<close> of a partition holds the rejected elements behind
  \<open>left\<close>: the elements at the indices \<open>left \<le> i < cnt\<close> are, as a multiset, the
  elements of \<open>base\<close> that fail the predicate.
\<close>

definition tail_holds_rejected ::
  "bytes \<Rightarrow> nat \<Rightarrow> nat \<Rightarrow> predicate \<Rightarrow> bytes \<times> nat \<Rightarrow> bool" where
  "tail_holds_rejected base cnt stride pred r \<longleftrightarrow>
     (case r of (base', left) \<Rightarrow>
        mset (map (elem_at base' stride) [left..<cnt])
          = mset (filter (\<lambda>e. \<not> pred e) (elems base stride cnt)))"

text \<open>The \<open>int\<close> array 1, 2, 3, 4, 5, 6 of the filter tests, as its 24 bytes.\<close>

definition one_to_six :: bytes where
  "one_to_six = [1, 0, 0, 0, 2, 0, 0, 0, 3, 0, 0, 0, 4, 0, 0, 0, 5, 0, 0, 0, 6, 0, 0, 0]"

section \<open>Proof setup\<close>

text \<open>The loops are unfolded one iteration at a time, where a proof asks for it.\<close>

declare inplace_loop.simps [simp del] stable_scan.simps [simp del]
  count_only_loop.simps [simp del] first_loop.simps [simp del]
  partition_loop.simps [simp del] lane_loop.simps [simp del]
  compact_scan.simps [simp del] reduce_scan.simps [simp del] reduce_lanes.simps [simp del]

lemmas mem_defs = read_at_def write_at_def memmove_def memcpy_def memset_def elem_at_def
lemmas int_defs = le_nat_def le_bytes_def load_u_def load_s_def store_u_def store_s_def
lemmas size_defs = sz_def sz_dec_def lane_size_of_def clamp_lanes_def
lemmas filter_type_defs = fossil_algorithm_filter_type_sizeof_def g_filter_types_def
lemmas reduce_type_defs = fossil_algorithm_reduce_type_sizeof_def g_reduce_types_def

section \<open>Reading and writing element slots\<close>

lemma length_read_at: "off + n \<le> length m \<Longrightarrow> length (read_at m off n) = n"
  by (simp add: read_at_def)

lemma length_write_at: "off + length d \<le> length m \<Longrightarrow> length (write_at m off d) = length m"
  by (simp add: write_at_def)

lemma length_elem_at: "(i + 1) * stride \<le> length b \<Longrightarrow> length (elem_at b stride i) = stride"
  by (simp add: elem_at_def read_at_def)

lemma take_write_at: "k \<le> off \<Longrightarrow> off \<le> length m \<Longrightarrow> take k (write_at m off d) = take k m"
  by (simp add: write_at_def min_def)

lemma take_write_at_end:
  "off \<le> length m \<Longrightarrow> take (off + length d) (write_at m off d) = take off m @ d"
  by (simp add: write_at_def)

lemma drop_write_at:
  "off + length d \<le> k \<Longrightarrow> off \<le> length m \<Longrightarrow> drop k (write_at m off d) = drop k m"
  by (simp add: write_at_def)

lemma stride_le: "(i::nat) \<le> j \<Longrightarrow> j * stride \<le> n \<Longrightarrow> i * stride \<le> n"
  by (meson le_trans mult_le_mono1)

lemma stride_lt: "(i::nat) < j \<Longrightarrow> j * stride \<le> n \<Longrightarrow> (i + 1) * stride \<le> n"
  by (rule stride_le[of "i + 1" j]) simp_all

lemma write_slot_take:
  assumes "length e = stride" and "(w + 1) * stride \<le> length b"
  shows "take ((w + 1) * stride) (write_at b (w * stride) e) = take (w * stride) b @ e"
proof -
  have "(w + 1) * stride = w * stride + length e" using assms(1) by simp
  moreover have "w * stride \<le> length b" using assms by simp
  ultimately show ?thesis by (simp only: take_write_at_end)
qed

lemma write_slot_drop:
  assumes "length e = stride" and "(w + 1) * stride \<le> length b"
  shows "drop ((w + 1) * stride) (write_at b (w * stride) e) = drop ((w + 1) * stride) b"
proof -
  have "w * stride + length e \<le> (w + 1) * stride" using assms(1) by simp
  moreover have "w * stride \<le> length b" using assms by simp
  ultimately show ?thesis by (rule drop_write_at)
qed

lemma write_slot_length:
  assumes "length e = stride" and "(w + 1) * stride \<le> length b"
  shows "length (write_at b (w * stride) e) = length b"
  using assms by (intro length_write_at) simp

lemma drop_cong_ge:
  assumes "drop k b1 = drop k b2" and "k \<le> n"
  shows "drop n b1 = drop n b2"
proof -
  have "drop n b1 = drop (n - k) (drop k b1)" using assms(2) by simp
  also have "\<dots> = drop (n - k) (drop k b2)" by (simp only: assms(1))
  also have "\<dots> = drop n b2" using assms(2) by simp
  finally show ?thesis .
qed

text \<open>An element at or beyond the offset \<open>k\<close> depends only on the bytes from \<open>k\<close> on.\<close>
lemma elem_at_drop_cong:
  assumes "drop k b1 = drop k b2" and "k \<le> i * stride"
  shows "elem_at b1 stride i = elem_at b2 stride i"
proof -
  have "drop (i * stride) b1 = drop (i * stride - k) (drop k b1)"
    using assms(2) by simp
  also have "\<dots> = drop (i * stride - k) (drop k b2)" by (simp add: assms(1))
  also have "\<dots> = drop (i * stride) b2" using assms(2) by simp
  finally show ?thesis by (simp add: elem_at_def read_at_def)
qed

lemma elem_at_take_cong:
  assumes "take k b1 = take k b2" and "(i + 1) * stride \<le> k"
  shows "elem_at b1 stride i = elem_at b2 stride i"
proof -
  have "take stride (drop (i * stride) b) = drop (i * stride) (take ((i + 1) * stride) b)" for b :: bytes
    by (simp add: drop_take)
  moreover have "take ((i + 1) * stride) b1 = take ((i + 1) * stride) b2"
    using assms by (metis min.absorb1 take_take)
  ultimately show ?thesis by (simp add: elem_at_def read_at_def)
qed

lemma map_elem_at_drop_cong:
  assumes "drop k b1 = drop k b2" and "k \<le> i * stride"
  shows "map (elem_at b1 stride) [i..<j] = map (elem_at b2 stride) [i..<j]"
proof (rule map_cong[OF refl])
  fix x assume "x \<in> set [i..<j]"
  then have "i * stride \<le> x * stride" by simp
  with assms(2) have "k \<le> x * stride" by (rule le_trans)
  with assms(1) show "elem_at b1 stride x = elem_at b2 stride x"
    by (rule elem_at_drop_cong)
qed

lemma kept_in_empty: "j \<le> i \<Longrightarrow> kept_in b stride pred i j = []"
  by (simp add: kept_in_def)

lemma kept_in_step: "i < j \<Longrightarrow> kept_in b stride pred i j =
   (if pred (elem_at b stride i) then elem_at b stride i # kept_in b stride pred (i + 1) j
    else kept_in b stride pred (i + 1) j)"
  by (simp add: kept_in_def upt_conv_Cons)

lemma compact_scan_spec:
  assumes "w \<le> i" and "stop * stride \<le> length b"
  shows "compact_scan b stride pred i stop w =
     (take (w * stride) b @ concat (kept_in b stride pred i stop)
        @ drop ((w + length (kept_in b stride pred i stop)) * stride) b,
      w + length (kept_in b stride pred i stop))"
  using assms
proof (induction "stop - i" arbitrary: i w b)
  case 0
  then show ?case
    by (subst compact_scan.simps) (simp add: kept_in_empty)
next
  case (Suc n)
  then have lt: "i < stop" and n: "n = stop - (i + 1)" by simp_all
  show ?case
  proof (cases "pred (elem_at b stride i)")
    case False
    have "w \<le> i + 1" using Suc.prems by simp
    from Suc.hyps(1)[OF n this Suc.prems(2)] False lt show ?thesis
      by (subst compact_scan.simps) (simp add: kept_in_step)
  next
    case True
    define e where "e = elem_at b stride i"
    define b1 where "b1 = memmove b (w * stride) (i * stride) stride"
    have istr: "(i + 1) * stride \<le> length b"
      using lt Suc.prems(2) by (rule stride_lt)
    have wstr: "(w + 1) * stride \<le> length b"
      using Suc.prems(1) istr by (intro stride_le[of "w + 1" "i + 1"]) simp_all
    have le: "length e = stride" unfolding e_def using istr by (rule length_elem_at)
    have b1: "b1 = write_at b (w * stride) e"
      by (simp add: b1_def memmove_def e_def elem_at_def)
    have len: "length b1 = length b"
      unfolding b1 using le wstr by (rule write_slot_length)
    have tk: "take ((w + 1) * stride) b1 = take (w * stride) b @ e"
      unfolding b1 using le wstr by (rule write_slot_take)
    have dr: "drop ((w + 1) * stride) b1 = drop ((w + 1) * stride) b"
      unfolding b1 using le wstr by (rule write_slot_drop)
    have "(w + 1) * stride \<le> (i + 1) * stride" using Suc.prems(1) by simp
    from map_elem_at_drop_cong[OF dr this]
    have kept: "kept_in b1 stride pred (i + 1) stop = kept_in b stride pred (i + 1) stop"
      unfolding kept_in_def by (rule arg_cong)
    have dr2: "drop ((w + 1 + k) * stride) b1 = drop ((w + 1 + k) * stride) b" for k
      using dr by (rule drop_cong_ge) simp
    have "w + 1 \<le> i + 1" using Suc.prems by simp
    from Suc.hyps(1)[OF n this, of b1] Suc.prems(2) len
    have "compact_scan b1 stride pred (i + 1) stop (w + 1) =
       (take ((w + 1) * stride) b1 @ concat (kept_in b1 stride pred (i + 1) stop)
        @ drop ((w + 1 + length (kept_in b1 stride pred (i + 1) stop)) * stride) b1,
      w + 1 + length (kept_in b1 stride pred (i + 1) stop))"
      by simp
    then have "compact_scan b1 stride pred (i + 1) stop (w + 1) =
       (take (w * stride) b @ e @ concat (kept_in b stride pred (i + 1) stop)
        @ drop ((w + 1 + length (kept_in b stride pred (i + 1) stop)) * stride) b,
      w + 1 + length (kept_in b stride pred (i + 1) stop))"
      by (simp only: kept tk dr2 append_assoc)
    with True lt show ?thesis
      by (subst compact_scan.simps) (simp add: kept_in_step[OF lt] e_def[symmetric] b1_def[symmetric])
  qed
qed

section \<open>The scans of the compaction strategies\<close>

lemma memmove_self:
  "memmove b off off n = b"
  by (simp add: memmove_def write_at_def read_at_def min_def) (metis append_take_drop_id drop_drop add.commute)

lemma length_memmove_slot:
  assumes "(w + 1) * stride \<le> length b" and "(i + 1) * stride \<le> length b"
  shows "length (memmove b (w * stride) (i * stride) stride) = length b"
proof -
  have "length (read_at b (i * stride) stride) = stride"
    using assms(2) by (simp add: read_at_def)
  then show ?thesis unfolding memmove_def using assms(1) by (rule write_slot_length)
qed

lemma inplace_loop_compact_scan:
  assumes "w \<le> r" and "cnt * stride \<le> length b"
  shows "inplace_loop b cnt stride pred r w = compact_scan b stride pred r cnt w"
  using assms
proof (induction "cnt - r" arbitrary: r w b)
  case 0
  then show ?case
    by (subst inplace_loop.simps, subst compact_scan.simps) simp
next
  case (Suc n)
  then have lt: "r < cnt" and n: "n = cnt - (r + 1)" by simp_all
  have rstr: "(r + 1) * stride \<le> length b" using lt Suc.prems(2) by (rule stride_lt)
  have wstr: "(w + 1) * stride \<le> length b"
    using Suc.prems(1) rstr by (intro stride_le[of "w + 1" "r + 1"]) simp_all
  have len: "length (memmove b (w * stride) (r * stride) stride) = length b"
    using wstr rstr by (rule length_memmove_slot)
  have same: "(if w \<noteq> r then memmove b (w * stride) (r * stride) stride else b)
      = memmove b (w * stride) (r * stride) stride"
    by (simp add: memmove_self)
  have le1: "w + 1 \<le> r + 1" and le2: "w \<le> r + 1" using Suc.prems(1) by simp_all
  have keep: "inplace_loop (memmove b (w * stride) (r * stride) stride) cnt stride pred (r + 1) (w + 1)
      = compact_scan (memmove b (w * stride) (r * stride) stride) stride pred (r + 1) cnt (w + 1)"
    using Suc.hyps(1)[OF n le1] Suc.prems(2) len by simp
  have skip: "inplace_loop b cnt stride pred (r + 1) w = compact_scan b stride pred (r + 1) cnt w"
    using Suc.hyps(1)[OF n le2 Suc.prems(2)] .
  show ?case
    by (subst inplace_loop.simps, subst compact_scan.simps) (simp only: same keep skip)
qed

lemma kept_in_lengths:
  assumes "stop * stride \<le> length b"
  shows "\<forall>e \<in> set (kept_in b stride pred i stop). length e = stride"
proof
  fix e assume "e \<in> set (kept_in b stride pred i stop)"
  then obtain j where j: "j < stop" and e: "e = elem_at b stride j"
    by (auto simp: kept_in_def)
  from j assms have "(j + 1) * stride \<le> length b" by (rule stride_lt)
  then show "length e = stride" unfolding e by (rule length_elem_at)
qed

lemma length_concat_uniform:
  "\<forall>e \<in> set xs. length e = n \<Longrightarrow> length (concat xs) = length xs * n"
  by (induction xs) simp_all

lemma length_concat_kept_in:
  assumes "stop * stride \<le> length b"
  shows "length (concat (kept_in b stride pred i stop)) = length (kept_in b stride pred i stop) * stride"
  using kept_in_lengths[OF assms] by (rule length_concat_uniform)

lemma length_kept_in_le: "length (kept_in b stride pred i stop) \<le> stop - i"
  unfolding kept_in_def by (rule le_trans[OF length_filter_le]) simp

lemma stable_scan_spec:
  assumes "stop * stride \<le> length base" and "(k + (stop - i)) * stride \<le> length tmp"
  shows "stable_scan base tmp stride pred i stop k =
     (take (k * stride) tmp @ concat (kept_in base stride pred i stop)
        @ drop ((k + length (kept_in base stride pred i stop)) * stride) tmp,
      k + length (kept_in base stride pred i stop))"
  using assms
proof (induction "stop - i" arbitrary: i k tmp)
  case 0
  then show ?case
    by (subst stable_scan.simps) (simp add: kept_in_empty)
next
  case (Suc n)
  then have lt: "i < stop" and n: "n = stop - (i + 1)" by simp_all
  have room: "(k + (stop - (i + 1)) + 1) * stride \<le> length tmp"
    using Suc.prems(2) lt by (simp add: Suc_diff_Suc)
  show ?case
  proof (cases "pred (elem_at base stride i)")
    case False
    have "(k + (stop - (i + 1))) * stride \<le> length tmp"
      using room by (rule stride_le[rotated]) simp
    from Suc.hyps(1)[OF n Suc.prems(1) this] False lt show ?thesis
      by (subst stable_scan.simps) (simp add: kept_in_step)
  next
    case True
    define e where "e = elem_at base stride i"
    define t1 where "t1 = memcpy tmp (k * stride) base (i * stride) stride"
    have istr: "(i + 1) * stride \<le> length base"
      using lt Suc.prems(1) by (rule stride_lt)
    have kstr: "(k + 1) * stride \<le> length tmp"
      using room by (rule stride_le[rotated]) simp
    have le: "length e = stride" unfolding e_def using istr by (rule length_elem_at)
    have t1: "t1 = write_at tmp (k * stride) e"
      by (simp add: t1_def memcpy_def e_def elem_at_def)
    have len: "length t1 = length tmp"
      unfolding t1 using le kstr by (rule write_slot_length)
    have tk: "take ((k + 1) * stride) t1 = take (k * stride) tmp @ e"
      unfolding t1 using le kstr by (rule write_slot_take)
    have dr: "drop ((k + 1) * stride) t1 = drop ((k + 1) * stride) tmp"
      unfolding t1 using le kstr by (rule write_slot_drop)
    have dr2: "drop ((k + 1 + m) * stride) t1 = drop ((k + 1 + m) * stride) tmp" for m
      using dr by (rule drop_cong_ge) simp
    have "(k + 1 + (stop - (i + 1))) * stride \<le> length t1"
      using room len by (simp add: add.commute add.left_commute)
    from Suc.hyps(1)[OF n Suc.prems(1) this]
    have "stable_scan base t1 stride pred (i + 1) stop (k + 1) =
       (take (k * stride) tmp @ e @ concat (kept_in base stride pred (i + 1) stop)
        @ drop ((k + 1 + length (kept_in base stride pred (i + 1) stop)) * stride) tmp,
      k + 1 + length (kept_in base stride pred (i + 1) stop))"
      by (simp only: tk dr2 append_assoc)
    with True lt show ?thesis
      by (subst stable_scan.simps)
        (simp add: kept_in_step[OF lt] e_def[symmetric] t1_def[symmetric])
  qed
qed

lemma compact_scan_whole:
  assumes "cnt * stride \<le> length b"
  shows "compact_scan b stride pred 0 cnt 0 = compacted b cnt stride pred"
  using compact_scan_spec[of 0 0 cnt stride b pred] assms by (simp add: compacted_def)

lemma filter_inplace_compacted:
  assumes "cnt * stride \<le> length b"
  shows "filter_inplace b cnt stride pred = compacted b cnt stride pred"
  unfolding filter_inplace_def
  using inplace_loop_compact_scan[of 0 0 cnt stride b pred] compact_scan_whole[OF assms] assms
  by simp

lemma sz_small: "n < 2 ^ 64 \<Longrightarrow> sz n = n"
  by (simp add: sz_def)

lemma write_back:
  assumes "length ks = n" and "n \<le> length b"
  shows "memcpy b 0 (ks @ rest) 0 n = ks @ drop n b"
  using assms by (simp add: memcpy_def write_at_def read_at_def)

lemma stable_scan_whole:
  assumes "cnt * stride \<le> length b" and "cnt * stride \<le> length tmp"
  shows "case stable_scan b tmp stride pred 0 cnt 0 of
           (tmp', kept) \<Rightarrow> (memcpy b 0 tmp' 0 (kept * stride), kept) = compacted b cnt stride pred"
proof -
  let ?K = "kept_in b stride pred 0 cnt"
  have len: "length (concat ?K) = length ?K * stride"
    using assms(1) by (rule length_concat_kept_in)
  have "length ?K \<le> cnt" using length_kept_in_le[of b stride pred 0 cnt] by simp
  then have fits: "length ?K * stride \<le> length b"
    using assms(1) by (rule stride_le)
  have "stable_scan b tmp stride pred 0 cnt 0 =
      (concat ?K @ drop (length ?K * stride) tmp, length ?K)"
    using stable_scan_spec[of cnt stride b 0 0 tmp pred] assms by simp
  then show ?thesis
    using write_back[OF len fits] by (simp add: compacted_def)
qed

lemma filter_stable_compacted:
  assumes "cnt * stride \<le> length b" and "length b < 2 ^ 64"
    and "malloc (cnt * stride) = Some tmp" and "cnt * stride \<le> length tmp"
  shows "filter_stable malloc b cnt stride pred = compacted b cnt stride pred"
proof -
  have "sz (cnt * stride) = cnt * stride"
    using assms(1,2) by (intro sz_small) simp
  then show ?thesis
    using stable_scan_whole[OF assms(1) assms(4), of pred] assms(3)
    by (simp add: filter_stable_def split: prod.splits)
qed

lemma filter_stable_alloc_failed:
  "malloc (sz (cnt * stride)) = None \<Longrightarrow> filter_stable malloc b cnt stride pred = (b, 0)"
  by (simp add: filter_stable_def)

text \<open>Splitting a scan at an index in between gives the same scan.\<close>

lemma compact_scan_chain:
  assumes "i \<le> m" and "m \<le> e"
  shows "(case compact_scan b stride pred i m w of (b1, w1) \<Rightarrow> compact_scan b1 stride pred m e w1)
     = compact_scan b stride pred i e w"
  using assms(1)
proof (induction "m - i" arbitrary: i w b)
  case 0
  then have eq: "i = m" by simp
  have "compact_scan b stride pred m m w = (b, w)"
    by (subst compact_scan.simps) simp
  then show ?case by (simp add: eq)
next
  case (Suc n)
  then have lt: "i < m" and n: "n = m - (i + 1)" and le: "i + 1 \<le> m" by simp_all
  with assms(2) have lt': "i < e" by simp
  note IH = Suc.hyps(1)[OF n le]
  show ?case
    by (subst compact_scan.simps, subst (2) compact_scan.simps)
       (simp only: lt lt' if_True IH split: if_split, simp)
qed

lemma stable_scan_chain:
  assumes "i \<le> m" and "m \<le> e"
  shows "(case stable_scan base tmp stride pred i m k of (t1, k1) \<Rightarrow> stable_scan base t1 stride pred m e k1)
     = stable_scan base tmp stride pred i e k"
  using assms(1)
proof (induction "m - i" arbitrary: i k tmp)
  case 0
  then have eq: "i = m" by simp
  have "stable_scan base tmp stride pred m m k = (tmp, k)"
    by (subst stable_scan.simps) simp
  then show ?case by (simp add: eq)
next
  case (Suc n)
  then have lt: "i < m" and n: "n = m - (i + 1)" and le: "i + 1 \<le> m" by simp_all
  with assms(2) have lt': "i < e" by simp
  note IH = Suc.hyps(1)[OF n le]
  show ?case
    by (subst stable_scan.simps, subst (2) stable_scan.simps)
       (simp only: lt lt' if_True IH split: if_split, simp)
qed

text \<open>The lane loop, for a body that composes over adjacent ranges.\<close>

lemma lane_loop_whole:
  fixes body :: "nat \<Rightarrow> nat \<Rightarrow> 's \<Rightarrow> 's"
  assumes chain: "\<And>s m e st. s \<le> m \<Longrightarrow> m \<le> e \<Longrightarrow> body m e (body s m st) = body s e st"
    and empty: "\<And>s st. body s s st = st"
    and ls: "cnt \<le> lanes * ls" and big: "cnt + ls < 2 ^ 64"
    and lane: "lane \<le> lanes" "lane * ls < cnt + ls"
  shows "lane_loop body cnt lanes ls lane st = body (min (lane * ls) cnt) cnt st"
  using lane
proof (induction "lanes - lane" arbitrary: lane st)
  case 0
  then have "lane = lanes" by simp
  with ls have "min (lane * ls) cnt = cnt" by simp
  moreover have "lane_loop body cnt lanes ls lane st = st"
    using \<open>lane = lanes\<close> by (subst lane_loop.simps) simp
  ultimately show ?case by (simp add: empty)
next
  case (Suc n)
  then have lt: "lane < lanes" and n: "n = lanes - (lane + 1)" and le: "lane + 1 \<le> lanes"
    by simp_all
  have start: "sz (lane * ls) = lane * ls"
    using Suc.prems(2) big by (intro sz_small) simp
  show ?case
  proof (cases "cnt \<le> lane * ls")
    case True
    then have "lane_loop body cnt lanes ls lane st = st"
      using lt start by (subst lane_loop.simps) simp
    moreover from True have "min (lane * ls) cnt = cnt" by simp
    ultimately show ?thesis by (simp add: empty)
  next
    case False
    then have below: "lane * ls < cnt" by simp
    have stop: "sz (lane * ls + ls) = lane * ls + ls"
      using below big by (intro sz_small) simp
    have next_start: "(lane + 1) * ls = lane * ls + ls" by simp
    have next_ok: "(lane + 1) * ls < cnt + ls" using below by simp
    have clip: "(if cnt < lane * ls + ls then cnt else lane * ls + ls) = min ((lane + 1) * ls) cnt"
      by (simp add: min_def)
    have "lane_loop body cnt lanes ls lane st =
        lane_loop body cnt lanes ls (lane + 1) (body (lane * ls) (min ((lane + 1) * ls) cnt) st)"
      using lt False by (subst lane_loop.simps) (simp only: start stop clip if_True if_False)
    also have "\<dots> = body (min ((lane + 1) * ls) cnt) cnt (body (lane * ls) (min ((lane + 1) * ls) cnt) st)"
      using Suc.hyps(1)[OF n le next_ok] .
    also have "\<dots> = body (lane * ls) cnt st"
      using below by (intro chain) simp_all
    finally show ?thesis using below by (simp add: min_def)
  qed
qed

section \<open>Lanes\<close>

lemma mod_dec:
  assumes "0 < (x::nat)" and "x < N"
  shows "(x + (N - 1)) mod N = x - 1"
proof -
  have "x + (N - 1) = (x - 1) + N" using assms by simp
  then have "(x + (N - 1)) mod N = (x - 1 + N) mod N" by (rule arg_cong)
  also have "\<dots> = (x - 1) mod N" by (rule mod_add_self2)
  also have "\<dots> = x - 1" using assms(2) by simp
  finally show ?thesis .
qed

lemma sz_dec_pos: "0 < x \<Longrightarrow> x < 2 ^ 64 \<Longrightarrow> sz_dec x = x - 1"
  unfolding sz_dec_def sz_def by (rule mod_dec)

lemma lane_size_of_eq:
  assumes "0 < lanes" and "lanes \<le> cnt" and "cnt < 2 ^ 63"
  shows "lane_size_of cnt lanes = (cnt + lanes - 1) div lanes"
proof -
  have "cnt + lanes < 2 ^ 64" using assms by simp
  then have "sz (cnt + lanes) = cnt + lanes" by (rule sz_small)
  moreover have "sz_dec (cnt + lanes) = cnt + lanes - 1"
    using assms(1) \<open>cnt + lanes < 2 ^ 64\<close> by (intro sz_dec_pos) simp_all
  ultimately show ?thesis by (simp add: lane_size_of_def)
qed

lemma ceil_div_covers:
  assumes "0 < (lanes::nat)"
  shows "cnt \<le> lanes * ((cnt + lanes - 1) div lanes)"
proof -
  have "cnt + lanes - 1 < lanes + lanes * ((cnt + lanes - 1) div lanes)"
    using assms by (rule dividend_less_times_div)
  then show ?thesis using assms by simp
qed

lemma ceil_div_le:
  assumes "0 < (lanes::nat)" and "lanes \<le> cnt"
  shows "(cnt + lanes - 1) div lanes \<le> cnt"
proof -
  from assms obtain l c where l: "lanes = Suc l" and c: "cnt = Suc c"
    by (metis Suc_le_D Suc_pred le_trans less_eq_Suc_le)
  have "cnt + lanes - 1 \<le> cnt * lanes" by (simp add: l c)
  then have "(cnt + lanes - 1) div lanes \<le> (cnt * lanes) div lanes"
    by (rule div_le_mono)
  then show ?thesis using assms(1) by simp
qed

lemma lane_size_facts:
  assumes "0 < lanes" and "lanes \<le> cnt" and "cnt < 2 ^ 63"
  shows "cnt \<le> lanes * lane_size_of cnt lanes" and "cnt + lane_size_of cnt lanes < 2 ^ 64"
proof -
  note eq = lane_size_of_eq[OF assms]
  show "cnt \<le> lanes * lane_size_of cnt lanes"
    unfolding eq using assms(1) by (rule ceil_div_covers)
  have "lane_size_of cnt lanes \<le> cnt"
    unfolding eq using assms(1,2) by (rule ceil_div_le)
  then show "cnt + lane_size_of cnt lanes < 2 ^ 64" using assms(3) by simp
qed

lemma clamp_lanes_id: "0 < lanes \<Longrightarrow> lanes \<le> cnt \<Longrightarrow> clamp_lanes cnt lanes = lanes"
  by (simp add: clamp_lanes_def)

lemma clamp_lanes_range: "0 < cnt \<Longrightarrow> 0 < clamp_lanes cnt lanes \<and> clamp_lanes cnt lanes \<le> cnt"
  by (simp add: clamp_lanes_def Let_def)

lemma clamp_lanes_zero: "clamp_lanes 0 lanes = 0"
  by (simp add: clamp_lanes_def Let_def)

lemma lane_loop_compact:
  assumes "0 < lanes" and "lanes \<le> cnt" and "cnt < 2 ^ 63"
  shows "lane_loop (\<lambda>start stop (b, write). compact_scan b stride pred start stop write)
           cnt lanes (lane_size_of cnt lanes) 0 (base, 0)
         = compact_scan base stride pred 0 cnt 0"
proof -
  let ?body = "\<lambda>start stop (b, write). compact_scan b stride pred start stop write"
  have chain: "?body m e (?body s m st) = ?body s e st" if "s \<le> m" "m \<le> e" for s m e st
    using compact_scan_chain[OF that] by (cases st) simp
  have empty: "?body s s st = st" for s st
    by (cases st) (simp add: compact_scan.simps)
  have "lane_loop ?body cnt lanes (lane_size_of cnt lanes) 0 (base, 0)
      = ?body (min (0 * lane_size_of cnt lanes) cnt) cnt (base, 0)"
    using chain empty lane_size_facts[OF assms] assms(1,2)
    by (intro lane_loop_whole) simp_all
  then show ?thesis by simp
qed

lemma lane_loop_stable:
  assumes "0 < lanes" and "lanes \<le> cnt" and "cnt < 2 ^ 63"
  shows "lane_loop (\<lambda>start stop (t, out). stable_scan base t stride pred start stop out)
           cnt lanes (lane_size_of cnt lanes) 0 (tmp, 0)
         = stable_scan base tmp stride pred 0 cnt 0"
proof -
  let ?body = "\<lambda>start stop (t, out). stable_scan base t stride pred start stop out"
  have chain: "?body m e (?body s m st) = ?body s e st" if "s \<le> m" "m \<le> e" for s m e st
    using stable_scan_chain[OF that] by (cases st) simp
  have empty: "?body s s st = st" for s st
    by (cases st) (simp add: stable_scan.simps)
  have "lane_loop ?body cnt lanes (lane_size_of cnt lanes) 0 (tmp, 0)
      = ?body (min (0 * lane_size_of cnt lanes) cnt) cnt (tmp, 0)"
    using chain empty lane_size_facts[OF assms] assms(1,2)
    by (intro lane_loop_whole) simp_all
  then show ?thesis by simp
qed

lemma filter_lane_compact_scan:
  assumes "0 < cnt" and "cnt < 2 ^ 63"
  shows "filter_lane_compact base cnt stride lanes pred = Inr (compact_scan base stride pred 0 cnt 0)"
proof -
  from clamp_lanes_range[OF assms(1), of lanes]
  have pos: "0 < clamp_lanes cnt lanes" and le: "clamp_lanes cnt lanes \<le> cnt" by simp_all
  show ?thesis
    using pos lane_loop_compact[OF pos le assms(2)]
    by (simp add: filter_lane_compact_def Let_def)
qed

lemma filter_lane_stable_scan:
  assumes "0 < cnt" and "cnt < 2 ^ 63"
  shows "filter_lane_stable malloc base cnt stride lanes pred =
     (case malloc (sz (cnt * stride)) of
        None \<Rightarrow> Inr (base, 0)
      | Some tmp \<Rightarrow>
          (case stable_scan base tmp stride pred 0 cnt 0 of
             (tmp', out) \<Rightarrow> Inr (memcpy base 0 tmp' 0 (out * stride), out)))"
proof -
  from clamp_lanes_range[OF assms(1), of lanes]
  have pos: "0 < clamp_lanes cnt lanes" and le: "clamp_lanes cnt lanes \<le> cnt" by simp_all
  show ?thesis
    using pos lane_loop_stable[OF pos le assms(2)]
    by (simp add: filter_lane_stable_def Let_def split: option.splits)
qed

text \<open>
  For \<open>count = 0\<close> the clamp sets \<open>lanes\<close> to 0 and the lane size is a division by
  zero.
\<close>

lemma filter_lane_compact_empty:
  "filter_lane_compact base 0 stride lanes pred = Inl DivisionByZero"
  by (simp add: filter_lane_compact_def clamp_lanes_zero)

lemma filter_lane_stable_empty:
  "malloc 0 = Some tmp \<Longrightarrow>
   filter_lane_stable malloc base 0 stride lanes pred = Inl DivisionByZero"
  by (simp add: filter_lane_stable_def clamp_lanes_zero sz_def)

lemma filter_lane_compact_compacted:
  assumes "0 < cnt" and "cnt * stride \<le> length b" and "length b < 2 ^ 63" and "0 < stride"
  shows "filter_lane_compact b cnt stride lanes pred = Inr (compacted b cnt stride pred)"
proof -
  have "cnt \<le> cnt * stride" using assms(4) by simp
  also have "\<dots> < 2 ^ 63" using assms(2,3) by (rule le_less_trans)
  finally have "cnt < 2 ^ 63" .
  from filter_lane_compact_scan[OF assms(1) this] compact_scan_whole[OF assms(2)]
  show ?thesis by simp
qed

lemma filter_lane_stable_compacted:
  assumes "0 < cnt" and "cnt * stride \<le> length b" and "length b < 2 ^ 63" and "0 < stride"
    and "malloc (cnt * stride) = Some tmp" and "cnt * stride \<le> length tmp"
  shows "filter_lane_stable malloc b cnt stride lanes pred = Inr (compacted b cnt stride pred)"
proof -
  have "cnt \<le> cnt * stride" using assms(4) by simp
  also have "\<dots> < 2 ^ 63" using assms(2,3) by (rule le_less_trans)
  finally have small: "cnt < 2 ^ 63" .
  have "sz (cnt * stride) = cnt * stride"
    using assms(2,3) by (intro sz_small) simp
  with filter_lane_stable_scan[OF assms(1) small, of malloc b stride lanes pred]
    stable_scan_whole[OF assms(2) assms(6), of pred] assms(5)
  show ?thesis by (simp split: prod.splits)
qed

lemma lane_loop_map:
  assumes "\<And>s e st. f (body1 s e st) = body2 s e (f st)"
  shows "f (lane_loop body1 cnt lanes ls lane st) = lane_loop body2 cnt lanes ls lane (f st)"
proof (induction "lanes - lane" arbitrary: lane st)
  case 0
  then show ?case by (subst lane_loop.simps, subst (2) lane_loop.simps) simp
next
  case (Suc n)
  then have n: "n = lanes - (lane + 1)" by simp
  have IH: "f (lane_loop body1 cnt lanes ls (Suc lane) st')
      = lane_loop body2 cnt lanes ls (Suc lane) (f st')" for st'
    using Suc.hyps(1)[OF n] by simp
  show ?case
    by (subst lane_loop.simps, subst (2) lane_loop.simps) (simp add: IH assms)
qed

lemma lane_loop_record_acc:
  "lane_loop (\<lambda>start stop rs. rs @ [(start, stop)]) cnt lanes ls lane acc
   = acc @ lane_loop (\<lambda>start stop rs. rs @ [(start, stop)]) cnt lanes ls lane []"
  using lane_loop_map[where f = "\<lambda>rs. acc @ rs"
      and ?body1.0 = "\<lambda>start stop rs. rs @ [(start, stop)]"
      and ?body2.0 = "\<lambda>start stop rs. rs @ [(start, stop)]" and st = "[]", symmetric]
  by simp

lemma lane_loop_fold:
  "lane_loop body cnt lanes ls lane st
   = fold (\<lambda>(start, stop). body start stop)
       (lane_loop (\<lambda>start stop rs. rs @ [(start, stop)]) cnt lanes ls lane []) st"
proof (induction "lanes - lane" arbitrary: lane st)
  case 0
  then show ?case by (subst lane_loop.simps, subst (2) lane_loop.simps) simp
next
  case (Suc n)
  then have n: "n = lanes - (lane + 1)" by simp
  have IH: "lane_loop body cnt lanes ls (Suc lane) st'
      = fold (\<lambda>(start, stop). body start stop)
          (lane_loop (\<lambda>start stop rs. rs @ [(start, stop)]) cnt lanes ls (Suc lane) []) st'"
    for st'
    using Suc.hyps(1)[OF n] by simp
  show ?case
    by (subst lane_loop.simps, subst (2) lane_loop.simps)
       (simp add: IH lane_loop_record_acc[where acc = "[_]"])
qed

lemma lane_loop_ranges: "lane_loop body cnt lanes ls 0 st
   = fold (\<lambda>(start, stop). body start stop) (lane_ranges cnt lanes ls) st"
  unfolding lane_ranges_def by (rule lane_loop_fold)

lemma upt_split: "s \<le> m \<Longrightarrow> m \<le> e \<Longrightarrow> [s..<m] @ [m..<e] = [s..<e]"
  by (metis le_add_diff_inverse upt_add_eq_append)

lemma lane_ranges_cover:
  assumes "0 < lanes" and "lanes \<le> cnt" and "cnt < 2 ^ 63"
  shows "concat (map (\<lambda>(start, stop). [start..<stop]) (lane_ranges cnt lanes (lane_size_of cnt lanes)))
     = [0..<cnt]"
proof -
  let ?f = "\<lambda>rs. concat (map (\<lambda>(start, stop). [start..<stop]) rs)"
  let ?body = "\<lambda>start stop xs. xs @ [start..<stop]"
  have "?f (lane_ranges cnt lanes (lane_size_of cnt lanes))
      = lane_loop ?body cnt lanes (lane_size_of cnt lanes) 0 (?f [])"
    unfolding lane_ranges_def by (rule lane_loop_map) simp
  also have "\<dots> = ?body (min (0 * lane_size_of cnt lanes) cnt) cnt (?f [])"
    using lane_size_facts[OF assms] assms(1,2)
    by (intro lane_loop_whole) (simp_all add: upt_split)
  finally show ?thesis by simp
qed

section \<open>The element view of a compacted buffer\<close>

lemma kept_in_elems: "kept_in b stride pred 0 cnt = filter pred (elems b stride cnt)"
  by (simp add: kept_in_def elems_def)

lemma elems_Cons:
  assumes "length x = stride"
  shows "elems (x @ ys) stride (Suc n) = x # elems ys stride n"
proof -
  have "elem_at (x @ ys) stride 0 = x"
    using assms by (simp add: elem_at_def read_at_def)
  moreover have "elem_at (x @ ys) stride (Suc i) = elem_at ys stride i" for i
    using assms by (simp add: elem_at_def read_at_def)
  ultimately show ?thesis
    unfolding elems_def by (simp add: map_upt_Suc del: upt_Suc)
qed

lemma elems_concat:
  assumes "\<forall>e \<in> set ks. length e = stride"
  shows "elems (concat ks @ rest) stride (length ks) = ks"
  using assms
proof (induction ks)
  case Nil
  then show ?case by (simp add: elems_def)
next
  case (Cons k ks)
  then have "elems (k @ (concat ks @ rest)) stride (Suc (length ks)) = k # elems (concat ks @ rest) stride (length ks)"
    by (intro elems_Cons) simp
  with Cons show ?case by simp
qed

lemma compacted_keeps_in_order:
  assumes "cnt * stride \<le> length b"
  shows "keeps_in_order b cnt stride pred (compacted b cnt stride pred)"
  using elems_concat[OF kept_in_lengths[OF assms], of pred 0]
  by (simp add: keeps_in_order_def compacted_def kept_in_elems)

lemma compacted_tail_untouched:
  assumes "cnt * stride \<le> length b"
  shows "tail_untouched b stride (compacted b cnt stride pred)"
proof -
  let ?K = "kept_in b stride pred 0 cnt"
  have len: "length (concat ?K) = length ?K * stride"
    using assms by (rule length_concat_kept_in)
  have "length ?K \<le> cnt" using length_kept_in_le[of b stride pred 0 cnt] by simp
  then have fits: "length ?K * stride \<le> length b"
    using assms by (rule stride_le)
  show ?thesis
    using len fits by (simp add: tail_untouched_def compacted_def)
qed

lemma tail_untouched_unchanged: "tail_untouched b stride (b, k)"
  by (simp add: tail_untouched_def)

section \<open>Order preservation of the compaction strategies\<close>

lemma valid_buffer_small:
  assumes "valid_buffer base cnt stride"
  shows "cnt < 2 ^ 63" and "cnt * stride < 2 ^ 64" and "sz (cnt * stride) = cnt * stride"
proof -
  from assms have s: "0 < stride" and b: "cnt * stride \<le> length base" and l: "length base < 2 ^ 63"
    by (simp_all add: valid_buffer_def)
  have "cnt \<le> cnt * stride" using s by simp
  also have "\<dots> < 2 ^ 63" using b l by (rule le_less_trans)
  finally show "cnt < 2 ^ 63" .
  have "cnt * stride < 2 ^ 63" using b l by (rule le_less_trans)
  then show "cnt * stride < 2 ^ 64" by simp
  then show "sz (cnt * stride) = cnt * stride" by (rule sz_small)
qed

lemma kept_one_to_six:
  "filter keep_even (elems one_to_six 4 6) = [[2, 0, 0, 0], [4, 0, 0, 0], [6, 0, 0, 0]]"
  by (simp add: elems_def one_to_six_def keep_even_def int_defs mem_defs signed_modulo_int_def upt_rec_numeral upt_conv_Cons)

lemma valid_one_to_six: "valid_buffer one_to_six 6 4"
  by (simp add: valid_buffer_def one_to_six_def)

text \<open>
  Claim C1 says that for every buffer, element count and predicate each of the strategies
  inplace/compact, stable, lane-compact and lane-stable is order-preserving. When its
  scratch allocation fails, \<open>filter_stable\<close> returns 0 and leaves the buffer as it was:
  on 1, 2, 3, 4, 5, 6 with the even-keeping predicate it reports 0 kept elements, not
  3, and the result is not order-preserving.
\<close>

theorem stable_alloc_failure_counterexample:
  "filter_stable (\<lambda>n. None) one_to_six 6 4 keep_even = (one_to_six, 0)
   \<and> \<not> keeps_in_order one_to_six 6 4 keep_even
         (filter_stable (\<lambda>n. None) one_to_six 6 4 keep_even)"
  by (simp add: filter_stable_def keeps_in_order_def kept_one_to_six)

text \<open>
  Claim C1, amended: for a buffer that holds \<open>cnt\<close> elements, \<open>filter_inplace\<close> is
  order-preserving; \<open>filter_stable\<close> is when \<open>malloc\<close> returns its scratch block;
  \<open>filter_lane_compact\<close> is for \<open>cnt \<ge> 1\<close>; \<open>filter_lane_stable\<close> is for
  \<open>cnt \<ge> 1\<close> when \<open>malloc\<close> returns its scratch block. When \<open>malloc\<close> returns
  \<open>NULL\<close>, \<open>filter_stable\<close> and \<open>filter_lane_stable\<close> return 0 and leave the buffer
  unchanged.
\<close>

theorem compaction_order_preserving:
  assumes "valid_buffer base cnt stride"
  shows "keeps_in_order base cnt stride pred (filter_inplace base cnt stride pred)
    \<and> (case malloc (cnt * stride) of
         None \<Rightarrow>
           filter_stable malloc base cnt stride pred = (base, 0) \<and>
           filter_lane_stable malloc base cnt stride lanes pred = Inr (base, 0)
       | Some tmp \<Rightarrow>
           cnt * stride \<le> length tmp \<longrightarrow>
             keeps_in_order base cnt stride pred (filter_stable malloc base cnt stride pred) \<and>
             (0 < cnt \<longrightarrow>
                (\<exists>r. filter_lane_stable malloc base cnt stride lanes pred = Inr r \<and>
                     keeps_in_order base cnt stride pred r)))
    \<and> (0 < cnt \<longrightarrow>
         (\<exists>r. filter_lane_compact base cnt stride lanes pred = Inr r \<and>
              keeps_in_order base cnt stride pred r))"
proof -
  from assms have s: "0 < stride" and b: "cnt * stride \<le> length base" and l: "length base < 2 ^ 63"
    by (simp_all add: valid_buffer_def)
  have l64: "length base < 2 ^ 64" using l by simp
  note szc = valid_buffer_small(3)[OF assms]
  note ok = compacted_keeps_in_order[OF b, of pred]
  have inplace: "keeps_in_order base cnt stride pred (filter_inplace base cnt stride pred)"
    using ok by (simp add: filter_inplace_compacted[OF b])
  have lane_compact: "0 < cnt \<longrightarrow>
         (\<exists>r. filter_lane_compact base cnt stride lanes pred = Inr r \<and>
              keeps_in_order base cnt stride pred r)"
    using ok filter_lane_compact_compacted[OF _ b l s] by simp
  have stable: "case malloc (cnt * stride) of
         None \<Rightarrow>
           filter_stable malloc base cnt stride pred = (base, 0) \<and>
           filter_lane_stable malloc base cnt stride lanes pred = Inr (base, 0)
       | Some tmp \<Rightarrow>
           cnt * stride \<le> length tmp \<longrightarrow>
             keeps_in_order base cnt stride pred (filter_stable malloc base cnt stride pred) \<and>
             (0 < cnt \<longrightarrow>
                (\<exists>r. filter_lane_stable malloc base cnt stride lanes pred = Inr r \<and>
                     keeps_in_order base cnt stride pred r))"
  proof (cases "malloc (cnt * stride)")
    case None
    then show ?thesis
      by (simp add: filter_stable_def filter_lane_stable_def szc)
  next
    case (Some tmp)
    show ?thesis
      using ok filter_stable_compacted[where malloc = malloc and tmp = tmp, OF b l64 Some]
        filter_lane_stable_compacted[where malloc = malloc and tmp = tmp, OF _ b l s Some]
      by (simp add: Some)
  qed
  from inplace stable lane_compact show ?thesis by simp
qed

lemma keeps_in_order_one_to_six:
  "keeps_in_order one_to_six 6 4 keep_even (b, k) \<longleftrightarrow>
     elems b 4 k = [[2, 0, 0, 0], [4, 0, 0, 0], [6, 0, 0, 0]] \<and> k = 3"
  by (auto simp add: keeps_in_order_def kept_one_to_six)

text \<open>
  The example of claim C1: on 1, 2, 3, 4, 5, 6 with the even-keeping predicate each of
  the four strategies leaves 2, 4, 6 in the first three places and returns 3.
\<close>

theorem compaction_order_preserving_witness:
  "valid_buffer one_to_six 6 4
   \<and> (case filter_inplace one_to_six 6 4 keep_even of
        (b, k) \<Rightarrow> elems b 4 k = [[2, 0, 0, 0], [4, 0, 0, 0], [6, 0, 0, 0]] \<and> k = 3)
   \<and> (case filter_stable zeroed one_to_six 6 4 keep_even of
        (b, k) \<Rightarrow> elems b 4 k = [[2, 0, 0, 0], [4, 0, 0, 0], [6, 0, 0, 0]] \<and> k = 3)
   \<and> (\<exists>b. filter_lane_compact one_to_six 6 4 2 keep_even = Inr (b, 3) \<and>
           elems b 4 3 = [[2, 0, 0, 0], [4, 0, 0, 0], [6, 0, 0, 0]])
   \<and> (\<exists>b. filter_lane_stable zeroed one_to_six 6 4 2 keep_even = Inr (b, 3) \<and>
           elems b 4 3 = [[2, 0, 0, 0], [4, 0, 0, 0], [6, 0, 0, 0]])"
proof -
  have alloc: "zeroed 24 = Some (replicate 24 0)" by (simp add: zeroed_def)
  note inst = compaction_order_preserving[OF valid_one_to_six, of keep_even zeroed 2]
  from inst have inplace:
    "keeps_in_order one_to_six 6 4 keep_even (filter_inplace one_to_six 6 4 keep_even)"
    by simp
  from inst have stable:
    "keeps_in_order one_to_six 6 4 keep_even (filter_stable zeroed one_to_six 6 4 keep_even)"
    by (simp add: alloc)
  from inst obtain r1 where r1: "filter_lane_compact one_to_six 6 4 2 keep_even = Inr r1"
    "keeps_in_order one_to_six 6 4 keep_even r1"
    by auto
  from inst obtain r2 where r2: "filter_lane_stable zeroed one_to_six 6 4 2 keep_even = Inr r2"
    "keeps_in_order one_to_six 6 4 keep_even r2"
    by (auto simp add: alloc)
  from inplace have c1: "case filter_inplace one_to_six 6 4 keep_even of
        (b, k) \<Rightarrow> elems b 4 k = [[2, 0, 0, 0], [4, 0, 0, 0], [6, 0, 0, 0]] \<and> k = 3"
    by (cases "filter_inplace one_to_six 6 4 keep_even") (simp add: keeps_in_order_one_to_six)
  from stable have c2: "case filter_stable zeroed one_to_six 6 4 keep_even of
        (b, k) \<Rightarrow> elems b 4 k = [[2, 0, 0, 0], [4, 0, 0, 0], [6, 0, 0, 0]] \<and> k = 3"
    by (cases "filter_stable zeroed one_to_six 6 4 keep_even")
       (simp add: keeps_in_order_one_to_six)
  from r1 have c3: "\<exists>b. filter_lane_compact one_to_six 6 4 2 keep_even = Inr (b, 3) \<and>
           elems b 4 3 = [[2, 0, 0, 0], [4, 0, 0, 0], [6, 0, 0, 0]]"
    by (cases r1) (simp add: keeps_in_order_one_to_six)
  from r2 have c4: "\<exists>b. filter_lane_stable zeroed one_to_six 6 4 2 keep_even = Inr (b, 3) \<and>
           elems b 4 3 = [[2, 0, 0, 0], [4, 0, 0, 0], [6, 0, 0, 0]]"
    by (cases r2) (simp add: keeps_in_order_one_to_six)
  from valid_one_to_six c1 c2 c3 c4 show ?thesis by (intro conjI)
qed

section \<open>The tail and the lanes\<close>

text \<open>
  Claim C10: whenever one of the strategies inplace/compact, stable, lane-compact and
  lane-stable returns the kept count \<open>k\<close>, every byte of the buffer at an offset of
  \<open>k * stride\<close> or more has the value it had before the call.
\<close>

theorem compaction_tail_untouched:
  assumes "valid_buffer base cnt stride" and "alloc_fits malloc (cnt * stride)"
  shows "tail_untouched base stride (filter_inplace base cnt stride pred)
    \<and> tail_untouched base stride (filter_stable malloc base cnt stride pred)
    \<and> (case filter_lane_compact base cnt stride lanes pred of
         Inl fault \<Rightarrow> True | Inr r \<Rightarrow> tail_untouched base stride r)
    \<and> (case filter_lane_stable malloc base cnt stride lanes pred of
         Inl fault \<Rightarrow> True | Inr r \<Rightarrow> tail_untouched base stride r)"
proof -
  from assms(1) have s: "0 < stride" and b: "cnt * stride \<le> length base"
    and l: "length base < 2 ^ 63"
    by (simp_all add: valid_buffer_def)
  have l64: "length base < 2 ^ 64" using l by simp
  note szc = valid_buffer_small(3)[OF assms(1)]
  note ok = compacted_tail_untouched[OF b, of pred]
  have inplace: "tail_untouched base stride (filter_inplace base cnt stride pred)"
    using ok by (simp add: filter_inplace_compacted[OF b])
  have lane_compact: "case filter_lane_compact base cnt stride lanes pred of
         Inl fault \<Rightarrow> True | Inr r \<Rightarrow> tail_untouched base stride r"
  proof (cases "0 < cnt")
    case True
    from filter_lane_compact_compacted[OF True b l s] ok show ?thesis by simp
  next
    case False
    then show ?thesis by (simp add: filter_lane_compact_empty)
  qed
  have stable: "tail_untouched base stride (filter_stable malloc base cnt stride pred)
    \<and> (case filter_lane_stable malloc base cnt stride lanes pred of
         Inl fault \<Rightarrow> True | Inr r \<Rightarrow> tail_untouched base stride r)"
  proof (cases "malloc (cnt * stride)")
    case None
    then show ?thesis
      by (simp add: filter_stable_def filter_lane_stable_def szc tail_untouched_unchanged)
  next
    case (Some tmp)
    with assms(2) have fits: "cnt * stride \<le> length tmp" by (simp add: alloc_fits_def)
    have st: "tail_untouched base stride (filter_stable malloc base cnt stride pred)"
      using ok filter_stable_compacted[where malloc = malloc and tmp = tmp, OF b l64 Some fits]
      by simp
    have "case filter_lane_stable malloc base cnt stride lanes pred of
         Inl fault \<Rightarrow> True | Inr r \<Rightarrow> tail_untouched base stride r"
    proof (cases "0 < cnt")
      case True
      from filter_lane_stable_compacted[where malloc = malloc and tmp = tmp, OF True b l s Some fits] ok
      show ?thesis by simp
    next
      case False
      with Some show ?thesis
        by (simp add: filter_lane_stable_def clamp_lanes_zero sz_def)
    qed
    with st show ?thesis by simp
  qed
  from inplace stable lane_compact show ?thesis by simp
qed

lemma alloc_fits_zeroed: "alloc_fits zeroed n"
  by (simp add: alloc_fits_def zeroed_def)

text \<open>
  On the buffer 1, 2, 3, 4, 5, 6 all four strategies return, and leave the tail alone.
\<close>

theorem compaction_tail_untouched_witness:
  "valid_buffer one_to_six 6 4 \<and> alloc_fits zeroed (6 * 4)
   \<and> tail_untouched one_to_six 4 (filter_inplace one_to_six 6 4 keep_even)
   \<and> tail_untouched one_to_six 4 (filter_stable zeroed one_to_six 6 4 keep_even)
   \<and> (case filter_lane_compact one_to_six 6 4 2 keep_even of
        Inl fault \<Rightarrow> False | Inr r \<Rightarrow> tail_untouched one_to_six 4 r)
   \<and> (case filter_lane_stable zeroed one_to_six 6 4 2 keep_even of
        Inl fault \<Rightarrow> False | Inr r \<Rightarrow> tail_untouched one_to_six 4 r)"
proof -
  have v: "valid_buffer one_to_six 6 4" by (rule valid_one_to_six)
  have a: "alloc_fits zeroed (6 * 4)" by (rule alloc_fits_zeroed)
  have b: "6 * 4 \<le> length one_to_six" and l: "length one_to_six < 2 ^ 63"
    by (simp_all add: one_to_six_def)
  have z: "zeroed (6 * 4) = Some (replicate (6 * 4) 0)" by (simp add: zeroed_def)
  have r1: "filter_lane_compact one_to_six 6 4 2 keep_even = Inr (compacted one_to_six 6 4 keep_even)"
    using b l by (intro filter_lane_compact_compacted) simp_all
  have r2: "filter_lane_stable zeroed one_to_six 6 4 2 keep_even = Inr (compacted one_to_six 6 4 keep_even)"
    using b l z by (intro filter_lane_stable_compacted[where tmp = "replicate (6 * 4) 0"]) simp_all
  from compaction_tail_untouched[OF v a, of keep_even 2] v a show ?thesis
    by (simp add: r1 r2)
qed

text \<open>
  Claim C7: for \<open>1 \<le> lanes \<le> cnt\<close> the ranges the lane loop visits, put one after
  the other, are exactly the indices \<open>0, \<dots>, cnt - 1\<close> in order (no gap, no overlap);
  the clamp leaves \<open>lanes\<close> as it is, and the lane loop runs its body on these ranges
  in turn. \<open>filter_lane_compact\<close> returns, and what it returns is its scan run over
  these ranges in turn, starting from the caller's buffer and the write cursor 0: the
  compacted buffer and the number of kept elements, the same for every such \<open>lanes\<close>
  and so the result for \<open>lanes = 1\<close>. \<open>filter_lane_stable\<close> returns too: the
  unchanged buffer and 0 when \<open>malloc\<close> returns \<open>NULL\<close>, else its scan run over the
  same ranges into the scratch block and copied back, which is the compacted buffer and
  the number of kept elements when the block has the size asked for; again the result
  for \<open>lanes = 1\<close>. The predicate is a function of the element's bytes, hence
  deterministic.
\<close>

theorem lane_partition_independent:
  assumes "valid_buffer base cnt stride" and "1 \<le> lanes" and "lanes \<le> cnt"
  shows "concat (map (\<lambda>(start, stop). [start..<stop])
            (lane_ranges cnt lanes (lane_size_of cnt lanes))) = [0..<cnt]
    \<and> clamp_lanes cnt lanes = lanes
    \<and> lane_loop body cnt lanes (lane_size_of cnt lanes) 0 st
        = fold (\<lambda>(start, stop). body start stop)
            (lane_ranges cnt lanes (lane_size_of cnt lanes)) st
    \<and> filter_lane_compact base cnt stride lanes pred
        = filter_lane_compact base cnt stride 1 pred
    \<and> filter_lane_stable malloc base cnt stride lanes pred
        = filter_lane_stable malloc base cnt stride 1 pred
    \<and> filter_lane_compact base cnt stride lanes pred
        = Inr (fold (\<lambda>(start, stop) (b, write). compact_scan b stride pred start stop write)
                 (lane_ranges cnt lanes (lane_size_of cnt lanes)) (base, 0))
    \<and> filter_lane_compact base cnt stride lanes pred = Inr (compacted base cnt stride pred)
    \<and> filter_lane_stable malloc base cnt stride lanes pred
        = (case malloc (cnt * stride) of
             None \<Rightarrow> Inr (base, 0)
           | Some tmp \<Rightarrow>
               (case fold (\<lambda>(start, stop) (t, out).
                             stable_scan base t stride pred start stop out)
                       (lane_ranges cnt lanes (lane_size_of cnt lanes)) (tmp, 0) of
                  (tmp', out) \<Rightarrow> Inr (memcpy base 0 tmp' 0 (out * stride), out)))
    \<and> (case malloc (cnt * stride) of
          None \<Rightarrow> True
        | Some tmp \<Rightarrow>
            cnt * stride \<le> length tmp \<longrightarrow>
              filter_lane_stable malloc base cnt stride lanes pred
                = Inr (compacted base cnt stride pred))"
proof -
  from assms(1) have s: "0 < stride" and b: "cnt * stride \<le> length base"
    and l: "length base < 2 ^ 63"
    by (simp_all add: valid_buffer_def)
  note small = valid_buffer_small(1)[OF assms(1)]
  note szc = valid_buffer_small(3)[OF assms(1)]
  from assms(2,3) have pos: "0 < lanes" and cnt: "0 < cnt" by simp_all
  have cover: "concat (map (\<lambda>(start, stop). [start..<stop])
            (lane_ranges cnt lanes (lane_size_of cnt lanes))) = [0..<cnt]"
    using pos assms(3) small by (rule lane_ranges_cover)
  have clamp: "clamp_lanes cnt lanes = lanes"
    using pos assms(3) by (rule clamp_lanes_id)
  have ranges: "lane_loop body cnt lanes (lane_size_of cnt lanes) 0 st
        = fold (\<lambda>(start, stop). body start stop)
            (lane_ranges cnt lanes (lane_size_of cnt lanes)) st"
    by (rule lane_loop_ranges)
  have compact: "filter_lane_compact base cnt stride lanes pred
        = filter_lane_compact base cnt stride 1 pred"
    by (simp only: filter_lane_compact_scan[OF cnt small])
  have stable: "filter_lane_stable malloc base cnt stride lanes pred
        = filter_lane_stable malloc base cnt stride 1 pred"
    by (simp only: filter_lane_stable_scan[OF cnt small])
  have compact_ranges: "filter_lane_compact base cnt stride lanes pred
        = Inr (fold (\<lambda>(start, stop) (b, write). compact_scan b stride pred start stop write)
                 (lane_ranges cnt lanes (lane_size_of cnt lanes)) (base, 0))"
    using pos by (simp add: filter_lane_compact_def clamp lane_loop_ranges)
  have compact_value: "filter_lane_compact base cnt stride lanes pred
        = Inr (compacted base cnt stride pred)"
    using cnt b l s by (rule filter_lane_compact_compacted)
  have stable_ranges: "filter_lane_stable malloc base cnt stride lanes pred
        = (case malloc (cnt * stride) of
             None \<Rightarrow> Inr (base, 0)
           | Some tmp \<Rightarrow>
               (case fold (\<lambda>(start, stop) (t, out).
                             stable_scan base t stride pred start stop out)
                       (lane_ranges cnt lanes (lane_size_of cnt lanes)) (tmp, 0) of
                  (tmp', out) \<Rightarrow> Inr (memcpy base 0 tmp' 0 (out * stride), out)))"
    using pos by (simp add: filter_lane_stable_def clamp szc lane_loop_ranges
        split: option.splits)
  have stable_value: "case malloc (cnt * stride) of
          None \<Rightarrow> True
        | Some tmp \<Rightarrow>
            cnt * stride \<le> length tmp \<longrightarrow>
              filter_lane_stable malloc base cnt stride lanes pred
                = Inr (compacted base cnt stride pred)"
  proof (cases "malloc (cnt * stride)")
    case None
    then show ?thesis by simp
  next
    case (Some tmp)
    show ?thesis
      using filter_lane_stable_compacted[where malloc = malloc and tmp = tmp,
          OF cnt b l s Some]
      by (simp add: Some)
  qed
  from cover clamp ranges compact stable compact_ranges compact_value stable_ranges
    stable_value
  show ?thesis by (intro conjI)
qed

lemma compacted_one_to_six:
  "compacted one_to_six 6 4 keep_even
   = ([2, 0, 0, 0, 4, 0, 0, 0, 6, 0, 0, 0, 4, 0, 0, 0, 5, 0, 0, 0, 6, 0, 0, 0], 3)"
  by (simp add: compacted_def kept_in_elems kept_one_to_six) (simp add: one_to_six_def)

text \<open>
  Six elements in four lanes: the lane size is 2, the loop visits three ranges and
  stops at the fourth lane; both strategies return 2, 4, 6 in front and the count 3.
\<close>

theorem lane_partition_independent_witness:
  "valid_buffer one_to_six 6 4 \<and> (1 :: nat) \<le> 4 \<and> (4 :: nat) \<le> 6
   \<and> lane_ranges 6 4 (lane_size_of 6 4) = [(0, 2), (2, 4), (4, 6)]
   \<and> concat (map (\<lambda>(start, stop). [start..<stop]) (lane_ranges 6 4 (lane_size_of 6 4)))
       = [0..<6]
   \<and> filter_lane_compact one_to_six 6 4 4 keep_even
       = filter_lane_compact one_to_six 6 4 1 keep_even
   \<and> filter_lane_stable zeroed one_to_six 6 4 4 keep_even
       = filter_lane_stable zeroed one_to_six 6 4 1 keep_even
   \<and> filter_lane_compact one_to_six 6 4 4 keep_even
       = Inr ([2, 0, 0, 0, 4, 0, 0, 0, 6, 0, 0, 0, 4, 0, 0, 0, 5, 0, 0, 0, 6, 0, 0, 0], 3)
   \<and> filter_lane_stable zeroed one_to_six 6 4 4 keep_even
       = Inr ([2, 0, 0, 0, 4, 0, 0, 0, 6, 0, 0, 0, 4, 0, 0, 0, 5, 0, 0, 0, 6, 0, 0, 0], 3)"
proof -
  have ranges: "lane_ranges 6 4 (lane_size_of 6 4) = [(0, 2), (2, 4), (4, 6)]"
    by (simp add: lane_ranges_def lane_size_of_def sz_def sz_dec_def lane_loop.simps)
  have le: "(1 :: nat) \<le> 4" "(4 :: nat) \<le> 6" by simp_all
  have alloc: "zeroed 24 = Some (replicate 24 0)" by (simp add: zeroed_def)
  note inst = lane_partition_independent[OF valid_one_to_six le,
      where body = "\<lambda>start stop rs. rs @ [(start, stop)]" and st = "[]"
        and pred = keep_even and malloc = zeroed]
  note cover = inst[THEN conjunct1]
  note rest = inst[THEN conjunct2, THEN conjunct2, THEN conjunct2]
  note compact = rest[THEN conjunct1]
  note stable = rest[THEN conjunct2, THEN conjunct1]
  note rest2 = rest[THEN conjunct2, THEN conjunct2, THEN conjunct2]
  have compact_value: "filter_lane_compact one_to_six 6 4 4 keep_even
       = Inr ([2, 0, 0, 0, 4, 0, 0, 0, 6, 0, 0, 0, 4, 0, 0, 0, 5, 0, 0, 0, 6, 0, 0, 0], 3)"
    using rest2[THEN conjunct1] by (simp only: compacted_one_to_six)
  have stable_value: "filter_lane_stable zeroed one_to_six 6 4 4 keep_even
       = Inr ([2, 0, 0, 0, 4, 0, 0, 0, 6, 0, 0, 0, 4, 0, 0, 0, 5, 0, 0, 0, 6, 0, 0, 0], 3)"
    using rest2[THEN conjunct2, THEN conjunct2] by (simp add: alloc compacted_one_to_six)
  from valid_one_to_six le ranges cover compact stable compact_value stable_value
  show ?thesis by (intro conjI)
qed

section \<open>Dry runs\<close>

lemma count_only_loop_spec:
  "count_only_loop b cnt stride pred i hits = hits + length (kept_in b stride pred i cnt)"
proof (induction "cnt - i" arbitrary: i hits)
  case 0
  then show ?case by (subst count_only_loop.simps) (simp add: kept_in_empty)
next
  case (Suc n)
  then have lt: "i < cnt" and n: "n = cnt - (i + 1)" by simp_all
  have IH: "count_only_loop b cnt stride pred (Suc i) h
      = h + length (kept_in b stride pred (Suc i) cnt)" for h
    using Suc.hyps(1)[OF n] by simp
  show ?case
    by (subst count_only_loop.simps) (simp add: lt IH kept_in_step[OF lt])
qed

lemma filter_count_only_eq:
  "filter_count_only b cnt stride pred = length (filter pred (elems b stride cnt))"
  by (simp add: filter_count_only_def count_only_loop_spec kept_in_elems)

lemma resolve_dry_run: "resolve_algorithm a ''dry-run'' lanes = ''count-only''"
  by (simp add: resolve_algorithm_def)

lemma resolve_count_only: "resolve_algorithm ''count-only'' m lanes = ''count-only''"
  by (simp add: resolve_algorithm_def)

lemma dispatch_count_only:
  "filter_dispatch malloc bytes cnt stride lanes pred ''count-only''
   = Some (Inr (bytes, filter_count_only bytes cnt stride pred))"
  by (simp add: filter_dispatch_def)

lemma filter_exec_count_only:
  "fossil_algorithm_filter_exec malloc base cnt type_id (Some ''count-only'') mode_id lanes predicate out_count =
     (case (base, predicate) of
        (Some bytes, Some pred) \<Rightarrow>
          if fossil_algorithm_filter_type_sizeof type_id = 0 then Inr (- 2, base, out_count)
          else Inr (0, base,
                 case out_count of None \<Rightarrow> None
                 | Some old \<Rightarrow> Some (filter_count_only bytes cnt
                     (fossil_algorithm_filter_type_sizeof type_id) pred))
      | _ \<Rightarrow> Inr (- 1, base, out_count))"
  by (simp add: fossil_algorithm_filter_exec_def Let_def resolve_count_only dispatch_count_only
      split: option.splits)

lemma filter_exec_dry_run:
  "fossil_algorithm_filter_exec malloc base cnt type_id algorithm_id (Some ''dry-run'') lanes predicate out_count =
     (case (base, predicate) of
        (Some bytes, Some pred) \<Rightarrow>
          if fossil_algorithm_filter_type_sizeof type_id = 0 then Inr (- 2, base, out_count)
          else Inr (0, base,
                 case out_count of None \<Rightarrow> None
                 | Some old \<Rightarrow> Some (filter_count_only bytes cnt
                     (fossil_algorithm_filter_type_sizeof type_id) pred))
      | _ \<Rightarrow> Inr (- 1, base, out_count))"
  by (simp add: fossil_algorithm_filter_exec_def Let_def resolve_dry_run dispatch_count_only
      split: option.splits)

text \<open>
  Claim C8: a call in mode \<open>"dry-run"\<close> is the call of \<open>"count-only"\<close> with the same
  arguments, whatever algorithm identifier was asked for (recognized or not). A
  \<open>"count-only"\<close> call never faults and returns the buffer it was given, for every
  input. With a buffer, a predicate, a supported type and an output slot, the dry run
  returns status 0 and reports the number of elements that satisfy the predicate.
\<close>

theorem dry_run_is_count_only:
  "fossil_algorithm_filter_exec malloc base cnt type_id algorithm_id (Some ''dry-run'') lanes
      predicate out_count
     = fossil_algorithm_filter_exec malloc base cnt type_id (Some ''count-only'') mode_id lanes
         predicate out_count
   \<and> (case fossil_algorithm_filter_exec malloc base cnt type_id (Some ''count-only'') mode_id
           lanes predicate out_count of
        Inl fault \<Rightarrow> False
      | Inr (status, base', slot) \<Rightarrow> base' = base)
   \<and> (fossil_algorithm_filter_type_supported type_id \<longrightarrow>
        fossil_algorithm_filter_exec malloc (Some bytes) cnt type_id algorithm_id
          (Some ''dry-run'') lanes (Some pred) (Some old)
        = Inr (0, Some bytes,
               Some (length (filter pred
                  (elems bytes (fossil_algorithm_filter_type_sizeof type_id) cnt)))))"
  by (simp add: filter_exec_dry_run filter_exec_count_only filter_count_only_eq
        fossil_algorithm_filter_type_supported_def split: option.splits)

text \<open>
  The dry run of the tests, here with an algorithm identifier that does not exist.
\<close>

theorem dry_run_is_count_only_witness:
  "fossil_algorithm_filter_type_supported (Some ''i32'')
   \<and> fossil_algorithm_filter_exec zeroed (Some one_to_six) 6 (Some ''i32'') (Some ''notalgo'')
        (Some ''dry-run'') 0 (Some keep_even) (Some 0)
      = Inr (0, Some one_to_six, Some 3)"
proof -
  have supported: "fossil_algorithm_filter_type_supported (Some ''i32'')"
    by (simp add: fossil_algorithm_filter_type_supported_def filter_type_defs)
  have width: "fossil_algorithm_filter_type_sizeof (Some ''i32'') = 4"
    by (simp add: filter_type_defs)
  from dry_run_is_count_only[where type_id = "Some ''i32''" and malloc = zeroed
      and bytes = one_to_six and cnt = 6 and algorithm_id = "Some ''notalgo''" and lanes = 0
      and pred = keep_even and old = 0] supported
  show ?thesis by (simp add: width kept_one_to_six)
qed

section \<open>Partition\<close>

lemma take_cong_le:
  assumes "take k b1 = take k b2" and "n \<le> k"
  shows "take n b1 = take n b2"
proof -
  have "take n b1 = take n (take k b1)" using assms(2) by (simp add: min_def)
  also have "\<dots> = take n (take k b2)" by (simp only: assms(1))
  also have "\<dots> = take n b2" using assms(2) by (simp add: min_def)
  finally show ?thesis .
qed

lemma elem_at_write_slot:
  assumes "length e = stride" and "(w + 1) * stride \<le> length b"
  shows "elem_at (write_at b (w * stride) e) stride w = e"
proof -
  have "w * stride \<le> length b" using assms by simp
  then show ?thesis
    using assms(1) by (simp add: elem_at_def read_at_def write_at_def)
qed

lemma partition_loop_spec:
  assumes "left \<le> right" and "right * stride \<le> length b"
  shows "case partition_loop b stride pred left right of
           (b', l') \<Rightarrow>
             left \<le> l' \<and> l' \<le> right \<and> length b' = length b \<and>
             take (left * stride) b' = take (left * stride) b \<and>
             drop ((l' + 1) * stride) b' = drop ((l' + 1) * stride) b \<and>
             mset (map (elem_at b' stride) [left..<l']) = mset (kept_in b stride pred left right)"
  using assms
proof (induction "right - left" arbitrary: left right b)
  case 0
  then have "left = right" by simp
  then show ?case
    by (subst partition_loop.simps) (simp add: kept_in_empty)
next
  case (Suc n)
  then have lt: "left < right" by simp
  show ?case
  proof (cases "pred (elem_at b stride left)")
    case True
    have n: "n = right - (left + 1)" using Suc.hyps(2) by simp
    have le: "left + 1 \<le> right" using lt by simp
    obtain b' l' where res: "partition_loop b stride pred (left + 1) right = (b', l')"
      by (cases "partition_loop b stride pred (left + 1) right")
    from Suc.hyps(1)[OF n le Suc.prems(2)] res
    have l1: "left + 1 \<le> l'" and l2: "l' \<le> right" and len: "length b' = length b"
      and tk: "take ((left + 1) * stride) b' = take ((left + 1) * stride) b"
      and dr: "drop ((l' + 1) * stride) b' = drop ((l' + 1) * stride) b"
      and ms: "mset (map (elem_at b' stride) [Suc left..<l']) = mset (kept_in b stride pred (Suc left) right)"
      by (simp_all del: mset_upt mset_map)
    have tk0: "take (left * stride) b' = take (left * stride) b"
      using tk by (rule take_cong_le) simp
    have same: "elem_at b' stride left = elem_at b stride left"
      using tk by (rule elem_at_take_cong) simp
    have "left < l'" using l1 by simp
    then have "[left..<l'] = left # [left + 1..<l']" by (simp add: upt_conv_Cons)
    then have "mset (map (elem_at b' stride) [left..<l'])
        = {#elem_at b stride left#} + mset (kept_in b stride pred (Suc left) right)"
      by (simp add: same ms del: mset_upt mset_map)
    also have "\<dots> = mset (kept_in b stride pred left right)"
      using True by (simp add: kept_in_step[OF lt])
    finally have ms0: "mset (map (elem_at b' stride) [left..<l']) = mset (kept_in b stride pred left right)" .
    have "partition_loop b stride pred left right = (b', l')"
      using lt True res by (subst partition_loop.simps) simp
    with l1 l2 len tk0 dr ms0 show ?thesis by (simp del: mset_upt mset_map)
  next
    case False
    define r where "r = right - 1"
    define e where "e = elem_at b stride r"
    define b1 where "b1 = memmove b (left * stride) (r * stride) stride"
    have r1: "r + 1 = right" and lr: "left \<le> r" using lt by (simp_all add: r_def)
    have n: "n = r - left" using Suc.hyps(2) by (simp add: r_def)
    have rstr: "(r + 1) * stride \<le> length b" using Suc.prems(2) by (simp only: r1)
    have lstr: "(left + 1) * stride \<le> length b"
      using lr rstr by (intro stride_le[of "left + 1" "r + 1"]) simp_all
    have le: "length e = stride" unfolding e_def using rstr by (rule length_elem_at)
    have b1: "b1 = write_at b (left * stride) e"
      by (simp add: b1_def memmove_def e_def elem_at_def)
    have len1: "length b1 = length b" unfolding b1 using le lstr by (rule write_slot_length)
    have tk1: "take (left * stride) b1 = take (left * stride) b"
      unfolding b1 using lstr by (intro take_write_at) simp_all
    have dr1: "drop ((left + 1) * stride) b1 = drop ((left + 1) * stride) b"
      unfolding b1 using le lstr by (rule write_slot_drop)
    have at1: "elem_at b1 stride left = e"
      unfolding b1 using le lstr by (rule elem_at_write_slot)
    have fits: "r * stride \<le> length b1"
      using rstr len1 by simp
    obtain b' l' where res: "partition_loop b1 stride pred left r = (b', l')"
      by (cases "partition_loop b1 stride pred left r")
    from Suc.hyps(1)[OF n lr fits] res
    have l1: "left \<le> l'" and l2: "l' \<le> r" and len: "length b' = length b1"
      and tk: "take (left * stride) b' = take (left * stride) b1"
      and dr: "drop ((l' + 1) * stride) b' = drop ((l' + 1) * stride) b1"
      and ms: "mset (map (elem_at b' stride) [left..<l']) = mset (kept_in b1 stride pred left r)"
      by (simp_all del: mset_upt mset_map)
    have "drop ((l' + 1) * stride) b1 = drop ((l' + 1) * stride) b"
      using dr1 by (rule drop_cong_ge) (use l1 in simp)
    with dr have dr0: "drop ((l' + 1) * stride) b' = drop ((l' + 1) * stride) b" by simp
    have rest: "map (elem_at b1 stride) [Suc left..<r] = map (elem_at b stride) [Suc left..<r]"
      using dr1 by (rule map_elem_at_drop_cong) simp
    have "mset (kept_in b1 stride pred left r) = mset (kept_in b stride pred left right)"
    proof (cases "left < r")
      case True
      have "kept_in b1 stride pred left r
          = filter pred (e # map (elem_at b stride) [Suc left..<r])"
        using True by (simp add: kept_in_def upt_conv_Cons at1 rest)
      moreover have "[left..<right] = left # [Suc left..<r] @ [r]"
      proof -
        have "right = Suc r" using r1 by simp
        then have "[left..<right] = [left..<r] @ [r]" using lr by simp
        also have "[left..<r] = left # [Suc left..<r]" using True by (rule upt_conv_Cons)
        finally show ?thesis by simp
      qed
      then have "kept_in b stride pred left right
          = filter pred (map (elem_at b stride) [Suc left..<r] @ [e])"
        using False by (simp add: kept_in_def e_def)
      ultimately show ?thesis by simp
    next
      case False
      with lr have "left = r" by simp
      with r1 have "[left..<right] = [left]" by (simp add: upt_conv_Cons)
      with \<open>\<not> pred (elem_at b stride left)\<close> \<open>left = r\<close> show ?thesis
        by (simp add: kept_in_def)
    qed
    with ms have ms0: "mset (map (elem_at b' stride) [left..<l']) = mset (kept_in b stride pred left right)"
      by simp
    have "partition_loop b stride pred left right = (b', l')"
      using lt False res by (subst partition_loop.simps) (simp add: b1_def r_def)
    moreover have "l' \<le> right" using l2 r1 by simp
    ultimately show ?thesis using l1 len len1 tk tk1 dr0 ms0 by (simp del: mset_upt mset_map)
  qed
qed

lemma partition_one_to_six:
  "filter_partition one_to_six 6 4 keep_even
   = ([6, 0, 0, 0, 2, 0, 0, 0, 4, 0, 0, 0, 4, 0, 0, 0, 5, 0, 0, 0, 6, 0, 0, 0], 3)"
  by (simp add: filter_partition_def one_to_six_def keep_even_def int_defs mem_defs
        signed_modulo_int_def partition_loop.simps)

text \<open>
  Claim C2 says that \<open>"partition"\<close> on 1, 2, 3, 4, 5, 6 with the even-keeping
  predicate returns 3 and leaves 2, 4, 6 in the first three places. The call of the test
  \<open>cpp_test_filter_exec_i32_partition_even\<close> returns status 0 and the count 3, and the
  first three elements are 6, 2, 4: the kept elements, not in their original order.
\<close>

theorem partition_exec_one_to_six:
  "fossil_algorithm_filter_exec malloc (Some one_to_six) 6 (Some ''i32'') (Some ''partition'')
     None 0 (Some keep_even) (Some 0)
   = Inr (0, Some [6, 0, 0, 0, 2, 0, 0, 0, 4, 0, 0, 0, 4, 0, 0, 0, 5, 0, 0, 0, 6, 0, 0, 0],
          Some 3)"
  by (simp add: fossil_algorithm_filter_exec_def filter_type_defs resolve_algorithm_def
        filter_dispatch_def partition_one_to_six)

lemma rejected_one_to_six:
  "filter (\<lambda>e. \<not> keep_even e) (elems one_to_six 4 6) = [[1, 0, 0, 0], [3, 0, 0, 0], [5, 0, 0, 0]]"
  by (simp add: elems_def one_to_six_def keep_even_def int_defs mem_defs signed_modulo_int_def upt_rec_numeral upt_conv_Cons)

text \<open>
  Claim C3 says that after \<open>filter_partition\<close> returns \<open>left\<close> the elements at the
  indices \<open>left, \<dots>, count - 1\<close> are, as a multiset, the elements that fail the
  predicate. On 1, 2, 3, 4, 5, 6 the buffer ends as 6, 2, 4, 4, 5, 6 with \<open>left = 3\<close>:
  the tail is 4, 5, 6, and the rejected elements 1 and 3 are gone. A rejected element
  is overwritten by the element moved from the back, not exchanged with it.
\<close>

theorem partition_tail_counterexample:
  "\<not> tail_holds_rejected one_to_six 6 4 keep_even (filter_partition one_to_six 6 4 keep_even)"
proof
  assume "tail_holds_rejected one_to_six 6 4 keep_even (filter_partition one_to_six 6 4 keep_even)"
  then have "mset (map (elem_at [6, 0, 0, 0, 2, 0, 0, 0, 4, 0, 0, 0, 4, 0, 0, 0, 5, 0, 0, 0, 6, 0, 0, 0] 4) [3..<6])
      = mset [[1, 0, 0, 0], [3, 0, 0, 0], [5, 0, 0, 0 :: byte]]"
    by (simp add: tail_holds_rejected_def partition_one_to_six rejected_one_to_six del: mset_upt mset_map)
  then have "set (map (elem_at [6, 0, 0, 0, 2, 0, 0, 0, 4, 0, 0, 0, 4, 0, 0, 0, 5, 0, 0, 0, 6, 0, 0, 0] 4) [3..<6])
      = set [[1, 0, 0, 0], [3, 0, 0, 0], [5, 0, 0, 0 :: byte]]"
    by (rule mset_eq_setD)
  then have "[1, 0, 0, 0 :: byte]
      \<in> set (map (elem_at [6, 0, 0, 0, 2, 0, 0, 0, 4, 0, 0, 0, 4, 0, 0, 0, 5, 0, 0, 0, 6, 0, 0, 0] 4) [3..<6])"
    by simp
  then show False
    by (simp add: mem_defs upt_rec_numeral)
qed

text \<open>
  Claim C3, amended: after \<open>filter_partition\<close> returns \<open>left\<close>, \<open>left\<close> is the number
  of elements of the original buffer that satisfy the predicate, the first \<open>left\<close>
  elements are exactly these elements as a multiset, the buffer has kept its length,
  and the elements at the indices \<open>left + 1, \<dots>, count - 1\<close> are the original elements
  at these indices.
\<close>

theorem partition_keeps_accepted:
  assumes "valid_buffer base cnt stride"
  shows "case filter_partition base cnt stride pred of
           (base', left) \<Rightarrow>
             left = length (filter pred (elems base stride cnt)) \<and>
             mset (elems base' stride left) = mset (filter pred (elems base stride cnt)) \<and>
             length base' = length base \<and>
             map (elem_at base' stride) [left + 1..<cnt]
               = map (elem_at base stride) [left + 1..<cnt]"
proof -
  from assms have b: "cnt * stride \<le> length base" by (simp add: valid_buffer_def)
  obtain base' left where res: "filter_partition base cnt stride pred = (base', left)"
    by (cases "filter_partition base cnt stride pred")
  from partition_loop_spec[of 0 cnt stride base pred] b res
  have len: "length base' = length base"
    and dr: "drop ((left + 1) * stride) base' = drop ((left + 1) * stride) base"
    and ms: "mset (elems base' stride left) = mset (filter pred (elems base stride cnt))"
    by (simp_all add: filter_partition_def elems_def kept_in_elems[symmetric] kept_in_def del: mset_upt mset_map)
  from ms have "length (elems base' stride left) = length (filter pred (elems base stride cnt))"
    by (rule mset_eq_length)
  then have left: "left = length (filter pred (elems base stride cnt))"
    by (simp add: elems_def)
  have tail: "map (elem_at base' stride) [left + 1..<cnt] = map (elem_at base stride) [left + 1..<cnt]"
    using dr by (rule map_elem_at_drop_cong) simp
  from res left ms len tail show ?thesis by simp
qed

text \<open>
  On 1, 2, 3, 4, 5, 6: \<open>left = 3\<close>, the front holds 2, 4, 6 in some order, and the
  elements with the indices 4 and 5 are still 5 and 6.
\<close>

theorem partition_keeps_accepted_witness:
  "valid_buffer one_to_six 6 4
   \<and> (\<exists>base'. filter_partition one_to_six 6 4 keep_even = (base', 3)
         \<and> mset (elems base' 4 3) = mset [[2, 0, 0, 0], [4, 0, 0, 0], [6, 0, 0, 0]]
         \<and> length base' = 24
         \<and> map (elem_at base' 4) [4..<6] = [[5, 0, 0, 0], [6, 0, 0, 0]])"
proof -
  obtain base' left where res: "filter_partition one_to_six 6 4 keep_even = (base', left)"
    by (cases "filter_partition one_to_six 6 4 keep_even")
  have orig: "map (elem_at one_to_six 4) [4..<6] = [[5, 0, 0, 0], [6, 0, 0, 0]]"
    by (simp add: one_to_six_def mem_defs upt_rec_numeral)
  have len: "length one_to_six = 24" by (simp add: one_to_six_def)
  note inst = partition_keeps_accepted[OF valid_one_to_six, of keep_even, unfolded res prod.case]
  note l = inst[THEN conjunct1]
  note ms = inst[THEN conjunct2, THEN conjunct1]
  note lb = inst[THEN conjunct2, THEN conjunct2, THEN conjunct1]
  note tl = inst[THEN conjunct2, THEN conjunct2, THEN conjunct2]
  have l3: "left = 3" using l by (simp add: kept_one_to_six)
  have four: "(3 :: nat) + 1 = 4" by simp
  have r1: "filter_partition one_to_six 6 4 keep_even = (base', 3)"
    using res by (simp only: l3)
  have r2: "mset (elems base' 4 3) = mset [[2, 0, 0, 0], [4, 0, 0, 0], [6, 0, 0, 0]]"
    using ms by (simp only: l3 kept_one_to_six)
  have r3: "length base' = 24" using lb by (simp only: len)
  have r4: "map (elem_at base' 4) [4..<6] = [[5, 0, 0, 0], [6, 0, 0, 0]]"
    using tl by (simp only: l3 four orig)
  show ?thesis
  proof (intro conjI exI[of _ base'])
    show "valid_buffer one_to_six 6 4" by (rule valid_one_to_six)
    show "filter_partition one_to_six 6 4 keep_even = (base', 3)" by (rule r1)
    show "mset (elems base' 4 3) = mset [[2, 0, 0, 0], [4, 0, 0, 0], [6, 0, 0, 0]]" by (rule r2)
    show "length base' = 24" by (rule r3)
    show "map (elem_at base' 4) [4..<6] = [[5, 0, 0, 0], [6, 0, 0, 0]]" by (rule r4)
  qed
qed

section \<open>Status codes of the reduce entry point\<close>

text \<open>
  Claim C4 says that a \<open>"custom"\<close> operator with a null reducer is rejected with status
  -1 before the type is resolved, so that an unknown type still gives -1. The source
  resolves the type first: with the unknown type \<open>"notatype"\<close> the status is -2.
\<close>

theorem reduce_custom_null_counterexample:
  "fossil_algorithm_reduce_exec float_stub (Some [1, 0, 0, 0, 2, 0, 0, 0, 3, 0, 0, 0]) 3
     (Some ''notatype'') (Some ''custom'') (Some ''auto'') 0 (Some [0, 0, 0, 0]) None
   = Inr (- 2, Some [0, 0, 0, 0])"
  by (simp add: fossil_algorithm_reduce_exec_def reduce_type_defs)

text \<open>
  Claim C4, amended: with base, accumulator, type and operator identifiers present, the
  operator \<open>"custom"\<close> and no reducer, the call returns -2 when the type identifier has
  no size in the reduce table (unknown, or \<open>"null"\<close>) and -1 otherwise; the accumulator is
  not touched.
\<close>

theorem reduce_custom_null_status:
  "fossil_algorithm_reduce_exec fo (Some bytes) cnt (Some ty) (Some ''custom'') mode_id lanes
     (Some out) None
   = Inr (if fossil_algorithm_reduce_type_sizeof (Some ty) = 0 then - 2 else - 1, Some out)"
  by (simp add: fossil_algorithm_reduce_exec_def Let_def)

text \<open>
  For \<open>"max"\<close> on \<open>"u8"\<close> neither the initialisation nor \<open>reduce_max\<close> has a branch:
  no element changes the accumulator, whatever the lanes.
\<close>

lemma reduce_scan_max_u8:
  "reduce_scan fo ''max'' ''u8'' fn bytes stride i stop out = Finished out"
proof (induction "stop - i" arbitrary: i)
  case 0
  then show ?case by (subst reduce_scan.simps) simp
next
  case (Suc k)
  from Suc.hyps(2) have "k = stop - (i + 1)" by simp
  from Suc.hyps(1)[OF this] show ?case
    by (subst reduce_scan.simps) (simp add: reduce_elem_def reduce_max_def)
qed

lemma reduce_lanes_max_u8:
  "reduce_lanes fo ''max'' ''u8'' fn bytes stride cnt lanes ls lane out = Finished out"
proof (induction "lanes - lane" arbitrary: lane)
  case 0
  then show ?case by (subst reduce_lanes.simps) simp
next
  case (Suc k)
  from Suc.hyps(2) have "k = lanes - (lane + 1)" by simp
  from Suc.hyps(1)[OF this] show ?case
    by (subst reduce_lanes.simps) (simp add: reduce_scan_max_u8)
qed

text \<open>
  Claim C5 says that \<open>"max"\<close> over the \<open>"u8"\<close> buffer 4, 2, 5, 1, 3 returns status 0 and
  writes 5 into the accumulator. The status is 0, but the accumulator keeps the bytes
  it had before the call: the 0 of the repository's test stays 0.
\<close>

theorem reduce_max_u8_no_effect:
  "fossil_algorithm_reduce_exec fo (Some [4, 2, 5, 1, 3]) 5 (Some ''u8'') (Some ''max'')
     mode_id lanes (Some out) fn = Inr (0, Some out)"
  by (simp add: fossil_algorithm_reduce_exec_def reduce_type_defs Let_def reduce_init_def
        reduce_lanes_max_u8)

section \<open>Null output slots\<close>

text \<open>
  Claim C6 says that both entry points return -1 for a null output slot. The filter
  entry point does not: the test call of \<open>cpp_test_filter_exec_i32_inplace_even\<close> with a
  null \<open>out_count\<close> succeeds, compacts the buffer and stores no count.
\<close>

theorem filter_null_out_count_counterexample:
  "fossil_algorithm_filter_exec (\<lambda>n. None)
     (Some [1, 0, 0, 0, 2, 0, 0, 0, 3, 0, 0, 0, 4, 0, 0, 0, 5, 0, 0, 0, 6, 0, 0, 0]) 6
     (Some ''i32'') (Some ''inplace'') None 0 (Some keep_even) None
   = Inr (0, Some [2, 0, 0, 0, 4, 0, 0, 0, 6, 0, 0, 0, 4, 0, 0, 0, 5, 0, 0, 0, 6, 0, 0, 0],
          None)"
  by (simp add: fossil_algorithm_filter_exec_def filter_type_defs resolve_algorithm_def
        filter_dispatch_def filter_inplace_def keep_even_def int_defs mem_defs
        signed_modulo_int_def inplace_loop.simps)

lemma filter_exec_out_count_irrelevant:
  "map_sum id (\<lambda>(status, buf, slot). (status, buf))
     (fossil_algorithm_filter_exec malloc base cnt type_id algorithm_id mode_id lanes
        predicate None)
   = map_sum id (\<lambda>(status, buf, slot). (status, buf))
     (fossil_algorithm_filter_exec malloc base cnt type_id algorithm_id mode_id lanes
        predicate (Some old))"
  by (simp add: fossil_algorithm_filter_exec_def Let_def
        split: option.splits sum.splits prod.splits)

lemma filter_exec_invalid_input:
  "(\<exists>buf slot. fossil_algorithm_filter_exec malloc base cnt type_id algorithm_id mode_id
        lanes predicate out_count = Inr (- 1, buf, slot))
   \<longleftrightarrow> base = None \<or> predicate = None"
  by (auto simp add: fossil_algorithm_filter_exec_def Let_def
        split: option.splits sum.splits prod.splits)

lemma reduce_exec_null_out_result:
  "fossil_algorithm_reduce_exec fo base cnt type_id op_id mode_id lanes None reduce_fn
   = Inr (- 1, None)"
  by (simp add: fossil_algorithm_reduce_exec_def split: option.splits)

text \<open>
  Claim C6, amended: \<open>fossil_algorithm_reduce_exec\<close> with a null \<open>out_result\<close> returns -1
  whatever the other arguments. \<open>fossil_algorithm_filter_exec\<close> does not validate
  \<open>out_count\<close>: with a null \<open>out_count\<close> it returns the status and leaves the buffer as
  it does with a non-null one, and its status is -1 exactly when the buffer or the
  predicate is null.
\<close>

theorem null_output_slot:
  "fossil_algorithm_reduce_exec fo rbase rcnt rtype op_id rmode rlanes None reduce_fn
     = Inr (- 1, None)
   \<and> map_sum id (\<lambda>(status, buf, slot). (status, buf))
       (fossil_algorithm_filter_exec malloc base cnt type_id algorithm_id mode_id lanes
          predicate None)
     = map_sum id (\<lambda>(status, buf, slot). (status, buf))
       (fossil_algorithm_filter_exec malloc base cnt type_id algorithm_id mode_id lanes
          predicate (Some old))
   \<and> ((\<exists>buf slot. fossil_algorithm_filter_exec malloc base cnt type_id algorithm_id mode_id
          lanes predicate None = Inr (- 1, buf, slot))
      \<longleftrightarrow> base = None \<or> predicate = None)"
proof (intro conjI)
  show "fossil_algorithm_reduce_exec fo rbase rcnt rtype op_id rmode rlanes None reduce_fn
          = Inr (- 1, None)"
    by (rule reduce_exec_null_out_result)
  show "map_sum id (\<lambda>(status, buf, slot). (status, buf))
       (fossil_algorithm_filter_exec malloc base cnt type_id algorithm_id mode_id lanes
          predicate None)
     = map_sum id (\<lambda>(status, buf, slot). (status, buf))
       (fossil_algorithm_filter_exec malloc base cnt type_id algorithm_id mode_id lanes
          predicate (Some old))"
    by (rule filter_exec_out_count_irrelevant)
  show "(\<exists>buf slot. fossil_algorithm_filter_exec malloc base cnt type_id algorithm_id mode_id
          lanes predicate None = Inr (- 1, buf, slot))
      \<longleftrightarrow> base = None \<or> predicate = None"
    by (rule filter_exec_invalid_input)
qed

section \<open>The lazy operator check of reduce\<close>

lemma reduce_lanes_returned:
  "reduce_lanes fo opr ty fn bytes stride cnt lanes ls lane out = Returned st out'
   \<Longrightarrow> 0 < cnt"
  by (subst (asm) reduce_lanes.simps) (auto split: if_splits)

lemma reduce_exec_unknown_op_scanned:
  assumes "fossil_algorithm_reduce_exec fo base cnt type_id op_id mode_id lanes out_result
             reduce_fn = Inr (- 3, r)"
  shows "0 < cnt"
  using assms
  by (auto simp: fossil_algorithm_reduce_exec_def Let_def
      split: option.splits if_splits loop_exit.splits dest: reduce_lanes_returned)

lemma reduce_init_unrecognized:
  "\<not> recognized_op opr \<Longrightarrow> reduce_init fo opr ty stride out = out"
  by (simp add: reduce_init_def recognized_op_def)

lemma reduce_lanes_empty:
  "reduce_lanes fo opr ty fn bytes stride 0 lanes ls lane out = Finished out"
  by (subst reduce_lanes.simps) simp

lemma reduce_exec_unrecognized_empty:
  assumes "\<not> recognized_op opr" and "fossil_algorithm_reduce_type_supported (Some ty)"
  shows "fossil_algorithm_reduce_exec fo (Some bytes) 0 (Some ty) (Some opr) mode_id lanes
           (Some out) fn = Inr (0, Some out)"
  using assms
  by (simp add: fossil_algorithm_reduce_exec_def Let_def reduce_lanes_empty
        reduce_init_unrecognized fossil_algorithm_reduce_type_supported_def recognized_op_def)

text \<open>
  Claim C9: the operator identifier is checked only inside the per-element loop. With an
  unrecognized operator, a supported type, non-null arguments and \<open>count = 0\<close> the call
  returns status 0 and the accumulator keeps its bytes; and whenever a call returns
  status -3, \<open>count\<close> is at least 1.
\<close>

theorem reduce_unknown_op_lazy:
  "(\<not> recognized_op opr \<longrightarrow> fossil_algorithm_reduce_type_supported (Some ty) \<longrightarrow>
      fossil_algorithm_reduce_exec fo (Some bytes) 0 (Some ty) (Some opr) mode_id lanes
        (Some out) fn = Inr (0, Some out))
   \<and> (fossil_algorithm_reduce_exec fo' base cnt type_id op_id mode_id' lanes' out_result
         fn' = Inr (- 3, r) \<longrightarrow> 0 < cnt)"
  using reduce_exec_unrecognized_empty reduce_exec_unknown_op_scanned by blast

theorem reduce_unknown_op_lazy_witness:
  "fossil_algorithm_reduce_exec float_stub (Some []) 0 (Some ''i32'') (Some ''notop'')
     (Some ''auto'') 0 (Some [7, 7, 7, 7]) None = Inr (0, Some [7, 7, 7, 7])
   \<and> fossil_algorithm_reduce_exec float_stub (Some [1, 0, 0, 0, 2, 0, 0, 0, 3, 0, 0, 0]) 3
       (Some ''i32'') (Some ''notop'') (Some ''auto'') 0 (Some [0, 0, 0, 0]) None
     = Inr (- 3, Some [0, 0, 0, 0])
   \<and> (0 :: nat) < 3"
proof -
  have unrecognized: "\<not> recognized_op ''notop''"
    by (simp add: recognized_op_def)
  have supported: "fossil_algorithm_reduce_type_supported (Some ''i32'')"
    by (simp add: fossil_algorithm_reduce_type_supported_def reduce_type_defs)
  have run: "fossil_algorithm_reduce_exec float_stub
      (Some [1, 0, 0, 0, 2, 0, 0, 0, 3, 0, 0, 0]) 3 (Some ''i32'') (Some ''notop'')
      (Some ''auto'') 0 (Some [0, 0, 0, 0]) None = Inr (- 3, Some [0, 0, 0, 0])"
    by (simp add: fossil_algorithm_reduce_exec_def reduce_type_defs Let_def reduce_init_def
        size_defs reduce_elem_def reduce_lanes.simps reduce_scan.simps)
  from reduce_unknown_op_lazy
    [where opr = "''notop''" and ty = "''i32''" and fo = float_stub and bytes = "[]"
       and mode_id = "Some ''auto''" and lanes = 0 and out = "[7, 7, 7, 7]" and fn = None
       and fo' = float_stub and base = "Some [1, 0, 0, 0, 2, 0, 0, 0, 3, 0, 0, 0]"
       and cnt = 3 and type_id = "Some ''i32''" and op_id = "Some ''notop''"
       and mode_id' = "Some ''auto''" and lanes' = 0 and out_result = "Some [0, 0, 0, 0]"
       and fn' = None and r = "Some [0, 0, 0, 0]"]
  show ?thesis using unrecognized supported run by simp
qed

end
